theory Spec2Isabelle
  imports Complex_Main
begin

section \<open>Python values, exceptions and the library calls the tracker relies on\<close>

text \<open>
  The tracker (\<^verbatim>\<open>iss_tracker.py\<close>) is a thin layer over \<^verbatim>\<open>xmltodict\<close>, the float
  and \<^verbatim>\<open>datetime\<close> types of Python and two network services.  Every raise of the
  source is a value \<open>Inl e\<close> of \<open>error + 'a\<close>; \<open>ebind\<close> is the sequencing of
  statements that may raise.
\<close>

datatype error = TypeError | KeyError | ValueError | OverflowError

definition ebind :: "error + 'a \<Rightarrow> ('a \<Rightarrow> error + 'b) \<Rightarrow> error + 'b" where
  "ebind m f = (case m of Inl e \<Rightarrow> Inl e | Inr x \<Rightarrow> f x)"

subsection \<open>The objects \<^verbatim>\<open>xmltodict.parse\<close> returns\<close>

text \<open>
  \<^verbatim>\<open>xmltodict\<close> builds its result from \<^verbatim>\<open>None\<close>, strings, insertion-ordered
  dictionaries and lists only.
\<close>

datatype pyval = PNone | PStr string | PDict "(string \<times> pyval) list" | PList "pyval list"

text \<open>\<^verbatim>\<open>v[k]\<close> with a string key: only a dictionary can be subscripted by a string.\<close>

fun getitem :: "pyval \<Rightarrow> string \<Rightarrow> error + pyval" where
  "getitem (PDict d) k = (case map_of d k of None \<Rightarrow> Inl KeyError | Some v \<Rightarrow> Inr v)"
| "getitem PNone k = Inl TypeError"
| "getitem (PStr s) k = Inl TypeError"
| "getitem (PList vs) k = Inl TypeError"

text \<open>
  \<^verbatim>\<open>for t in v\<close>: a list yields its elements, a dictionary its keys, a string its
  characters (as one-character strings); \<^verbatim>\<open>None\<close> is not iterable.
\<close>

fun iter :: "pyval \<Rightarrow> error + pyval list" where
  "iter (PList vs) = Inr vs"
| "iter (PDict d) = Inr (map (\<lambda>kv. PStr (fst kv)) d)"
| "iter (PStr s) = Inr (map (\<lambda>c. PStr [c]) s)"
| "iter PNone = Inl TypeError"

subsection \<open>The document and \<^verbatim>\<open>xmltodict\<close>\<close>

text \<open>
  A feed document is the tree of XML elements that the bytes of the feed denote: a tag,
  the attributes, the child elements in document order and the character data that
  stands directly in the element.
\<close>

datatype element =
  Element (tag: string) (attribs: "(string \<times> string) list") (children: "element list")
    (cdata: string)

text \<open>
  A string is a list of code points below 256.  \<^verbatim>\<open>str.strip()\<close> drops the
  characters for which \<^verbatim>\<open>str.isspace\<close> holds from both ends.
\<close>

definition py_isspace :: "char \<Rightarrow> bool" where
  "py_isspace c = (of_char c \<in> {9, 10, 11, 12, 13, 28, 29, 30, 31, 32, 133, 160 :: nat})"

definition strip :: "string \<Rightarrow> string" where
  "strip s = rev (dropWhile py_isspace (rev (dropWhile py_isspace s)))"

text \<open>\<^verbatim>\<open>d[k] = v\<close> on an insertion-ordered dictionary.\<close>

fun dict_set :: "(string \<times> pyval) list \<Rightarrow> string \<Rightarrow> pyval \<Rightarrow> (string \<times> pyval) list" where
  "dict_set [] k v = [(k, v)]"
| "dict_set ((k', v') # d) k v = (if k' = k then (k, v) # d else (k', v') # dict_set d k v)"

text \<open>
  \<^verbatim>\<open>push_data\<close> of \<^verbatim>\<open>xmltodict\<close>: the first value under a key is stored as it is, the
  second turns the entry into a two-element list, later ones are appended.
\<close>

definition push_data :: "(string \<times> pyval) list \<Rightarrow> string \<Rightarrow> pyval \<Rightarrow> (string \<times> pyval) list" where
  "push_data item k v =
     (case map_of item k of
        None \<Rightarrow> item @ [(k, v)]
      | Some (PList vs) \<Rightarrow> dict_set item k (PList (vs @ [v]))
      | Some old \<Rightarrow> dict_set item k (PList [old, v]))"

text \<open>
  The value \<^verbatim>\<open>xmltodict\<close> (default options) gives an element: the attributes under
  \<^verbatim>\<open>@name\<close>, then the children pushed in document order, then the stripped character
  data under \<^verbatim>\<open>#text\<close>; an element with neither attributes nor children is its
  character data, or \<^verbatim>\<open>None\<close> when that is empty.
\<close>

fun xmltodict_value :: "element \<Rightarrow> pyval" where
  "xmltodict_value (Element t atts cs txt) =
     (let attrs = fold (\<lambda>kv d. dict_set d (CHR ''@'' # fst kv) (PStr (snd kv))) atts [];
          item = fold (\<lambda>kv d. push_data d (fst kv) (snd kv))
                   (map (\<lambda>c. (tag c, xmltodict_value c)) cs) attrs;
          data = strip txt
      in if item = [] then (if data = [] then PNone else PStr data)
         else PDict (if data = [] then item else push_data item ''#text'' (PStr data)))"

definition xmltodict_parse :: "element \<Rightarrow> pyval" where
  "xmltodict_parse doc = PDict [(tag doc, xmltodict_value doc)]"

subsection \<open>Python floats (IEEE 754 binary64)\<close>

text \<open>
  A float is a finite binary64 value (kept as the rational it denotes), negative zero,
  an infinity or a NaN.
\<close>

datatype pyfloat = Finite rat | NegZero | PInf | NInf | NaN

definition pow2 :: "int \<Rightarrow> rat" where
  "pow2 e = (if 0 \<le> e then 2 ^ nat e else 1 / 2 ^ nat (- e))"

text \<open>The number of binary digits of a positive integer.\<close>

function bits :: "int \<Rightarrow> int" where
  "bits n = (if n \<le> 0 then 0 else 1 + bits (n div 2))"
  by pat_completeness auto
termination
  by (relation "measure nat") auto

declare bits.simps [simp del]

text \<open>The exponent of a positive rational: \<open>2 ^ ilog2 q \<le> q < 2 ^ (ilog2 q + 1)\<close>.\<close>

definition ilog2 :: "rat \<Rightarrow> int" where
  "ilog2 q =
     (let e0 = bits (fst (quotient_of q)) - bits (snd (quotient_of q))
      in if pow2 e0 \<le> q then e0 else e0 - 1)"

definition round_half_even :: "rat \<Rightarrow> int" where
  "round_half_even q =
     (let f = \<lfloor>q\<rfloor>; r = q - of_int f
      in if r < 1 / 2 then f else if 1 / 2 < r then f + 1 else if even f then f else f + 1)"

text \<open>
  Rounding a magnitude \<open>a \<ge> 0\<close> with a sign to the nearest binary64 value, ties to
  even: 53 significant bits, the least exponent \<open>-1074\<close>, and infinity from \<open>2 ^ 1024\<close> on.
\<close>

definition round64 :: "bool \<Rightarrow> rat \<Rightarrow> pyfloat" where
  "round64 neg a =
     (if a = 0 then (if neg then NegZero else Finite 0)
      else
        let p = max (ilog2 a - 52) (- 1074);
            m = round_half_even (a / pow2 p);
            v = of_int m * pow2 p
        in if pow2 1024 \<le> v then (if neg then NInf else PInf)
           else if m = 0 then (if neg then NegZero else Finite 0)
           else Finite (if neg then - v else v))"

definition rnd64 :: "rat \<Rightarrow> pyfloat" where
  "rnd64 q = round64 (q < 0) \<bar>q\<bar>"

text \<open>
  The same with another rounding of the scaled significand (\<open>floor\<close> rounds a positive
  magnitude down to a binary64 value, \<open>ceiling\<close> rounds it up).
\<close>

definition round64_to :: "(rat \<Rightarrow> int) \<Rightarrow> rat \<Rightarrow> pyfloat" where
  "round64_to rnd a =
     (let p = max (ilog2 a - 52) (- 1074);
          v = of_int (rnd (a / pow2 p)) * pow2 p
      in if pow2 1024 \<le> v then PInf else Finite v)"

text \<open>
  The C library.  \<^verbatim>\<open>x ** 2\<close> ends in a call \<^verbatim>\<open>pow(a, 2.0)\<close> of the C library, and
  that function is not correctly rounded: its error stays below one unit in the last
  place, so it returns one of the two binary64 values that enclose the exact square (the
  square itself when that is a binary64 value, and infinity from \<open>2 ^ 1024\<close> on), but
  which of the two is the library's business.  \<^verbatim>\<open>4.536 ** 2\<close>, for one, comes out
  as the lower value \<^verbatim>\<open>20.575295999999994\<close> on Linux although the upper one,
  \<^verbatim>\<open>20.575295999999998\<close>, is nearer.  A library is therefore an argument of the
  model, given by the choice it makes: \<open>lm a\<close> holds when its \<^verbatim>\<open>pow(a, 2.0)\<close> is the
  upper value.  What is proved for every \<open>lm\<close> holds whatever the library returns.
\<close>

type_synonym libm = "rat \<Rightarrow> bool"

definition libm_pow2 :: "libm \<Rightarrow> rat \<Rightarrow> pyfloat" where
  "libm_pow2 lm a = round64_to (if lm a then ceiling else floor) (a * a)"

text \<open>The library whose \<^verbatim>\<open>pow(a, 2.0)\<close> is the nearest value, ties to even.\<close>

definition nearest :: libm where
  "nearest a =
     (let m = a * a / pow2 (max (ilog2 (a * a) - 52) (- 1074))
      in round_half_even m \<noteq> \<lfloor>m\<rfloor>)"

text \<open>The library whose \<^verbatim>\<open>pow(a, 2.0)\<close> is always the lower value.\<close>

definition downwards :: libm where
  "downwards a = False"

text \<open>
  \<^verbatim>\<open>x ** 2\<close> (\<^verbatim>\<open>float_pow\<close> of CPython with the exponent \<open>2.0\<close>): NaN stays NaN,
  an infinity gives \<open>+inf\<close>, a zero gives \<open>0.0\<close>, and \<open>1.0\<close> or \<open>-1.0\<close> gives
  \<open>1.0\<close>; otherwise the library's \<^verbatim>\<open>pow\<close> is called on the magnitude, an infinite
  result is turned into \<^verbatim>\<open>OverflowError\<close> and an underflow to zero is returned as
  \<open>0.0\<close>.
\<close>

fun float_pow2 :: "libm \<Rightarrow> pyfloat \<Rightarrow> error + pyfloat" where
  "float_pow2 lm NaN = Inr NaN"
| "float_pow2 lm PInf = Inr PInf"
| "float_pow2 lm NInf = Inr PInf"
| "float_pow2 lm NegZero = Inr (Finite 0)"
| "float_pow2 lm (Finite q) =
     (if q = 0 then Inr (Finite 0)
      else if \<bar>q\<bar> = 1 then Inr (Finite 1)
      else case libm_pow2 lm \<bar>q\<bar> of PInf \<Rightarrow> Inl OverflowError | r \<Rightarrow> Inr r)"

text \<open>\<^verbatim>\<open>x + y\<close>: IEEE addition, which never raises.\<close>

fun is_nan :: "pyfloat \<Rightarrow> bool" where
  "is_nan NaN = True"
| "is_nan x = False"

fun fval :: "pyfloat \<Rightarrow> rat" where
  "fval (Finite q) = q"
| "fval x = 0"

definition float_add :: "pyfloat \<Rightarrow> pyfloat \<Rightarrow> pyfloat" where
  "float_add x y =
     (if is_nan x \<or> is_nan y then NaN
      else if x = PInf then (if y = NInf then NaN else PInf)
      else if x = NInf then (if y = PInf then NaN else NInf)
      else if y = PInf then PInf
      else if y = NInf then NInf
      else if x = NegZero \<and> y = NegZero then NegZero
      else rnd64 (fval x + fval y))"

text \<open>
  \<^verbatim>\<open>math.sqrt\<close>: the correctly rounded square root; a negative argument is a
  \<^verbatim>\<open>ValueError\<close> (math domain error).
\<close>

text \<open>The integer square root: the greatest \<open>r\<close> with \<open>r * r \<le> n\<close>.\<close>

function isqrt :: "int \<Rightarrow> int" where
  "isqrt n =
     (if n < 2 then max n 0
      else let r = 2 * isqrt (n div 4) in if (r + 1) * (r + 1) \<le> n then r + 1 else r)"
  by pat_completeness auto
termination
  by (relation "measure nat") auto

declare isqrt.simps [simp del]

definition sqrt64 :: "rat \<Rightarrow> rat" where
  "sqrt64 q =
     (let p = ilog2 q div 2 - 52;
          x = q / pow2 (2 * p);
          s = isqrt \<lfloor>x\<rfloor>;
          h = (of_int s + 1 / 2) * (of_int s + 1 / 2);
          m = (if x < h then s else if h < x then s + 1 else if even s then s else s + 1)
      in of_int m * pow2 p)"

fun math_sqrt :: "pyfloat \<Rightarrow> error + pyfloat" where
  "math_sqrt NaN = Inr NaN"
| "math_sqrt PInf = Inr PInf"
| "math_sqrt NInf = Inl ValueError"
| "math_sqrt NegZero = Inr NegZero"
| "math_sqrt (Finite q) =
     (if q < 0 then Inl ValueError else if q = 0 then Inr (Finite 0)
      else Inr (Finite (sqrt64 q)))"

text \<open>\<^verbatim>\<open>x == y\<close> on floats: the two zeros are equal, a NaN equals nothing.\<close>

definition float_eq :: "pyfloat \<Rightarrow> pyfloat \<Rightarrow> bool" where
  "float_eq x y =
     (\<not> is_nan x \<and> \<not> is_nan y \<and>
      (x = y \<or> (x = NegZero \<and> y = Finite 0) \<or> (x = Finite 0 \<and> y = NegZero)))"

text \<open>\<^verbatim>\<open>-x\<close> on floats.\<close>

fun float_neg :: "pyfloat \<Rightarrow> pyfloat" where
  "float_neg (Finite q) = (if q = 0 then NegZero else Finite (- q))"
| "float_neg NegZero = Finite 0"
| "float_neg PInf = NInf"
| "float_neg NInf = PInf"
| "float_neg NaN = NaN"

text \<open>
  \<^verbatim>\<open>float(s)\<close> for a string: surrounding whitespace (tab to carriage return, space, and
  the two spaces of Latin-1) is dropped, then an optional sign
  and either \<^verbatim>\<open>inf\<close>, \<^verbatim>\<open>infinity\<close>, \<^verbatim>\<open>nan\<close> (in any case) or a decimal number
  \<^verbatim>\<open>[digits][.digits][(e|E)[sign]digits]\<close> with at least one digit before the exponent;
  single underscores may stand between digits.  The decimal value is rounded to the
  nearest binary64 value.  Anything else is a \<^verbatim>\<open>ValueError\<close>.
\<close>

definition number_space :: "char \<Rightarrow> bool" where
  "number_space c = (of_char c \<in> {9, 10, 11, 12, 13, 32, 133, 160 :: nat})"

definition strip_number :: "string \<Rightarrow> string" where
  "strip_number s = rev (dropWhile number_space (rev (dropWhile number_space s)))"

definition is_digit :: "char \<Rightarrow> bool" where
  "is_digit c = (48 \<le> (of_char c :: nat) \<and> (of_char c :: nat) \<le> 57)"

definition digit_val :: "char \<Rightarrow> int" where
  "digit_val c = of_char c - 48"

definition digits_val :: "string \<Rightarrow> int" where
  "digits_val ds = foldl (\<lambda>n c. 10 * n + digit_val c) 0 ds"

definition lower :: "string \<Rightarrow> string" where
  "lower s = map (\<lambda>c. if 65 \<le> (of_char c :: nat) \<and> (of_char c :: nat) \<le> 90
                          then char_of (of_char c + 32 :: nat) else c) s"

text \<open>
  A \<^verbatim>\<open>digitpart\<close> at the head of a string: the digits it holds and the rest, or
  \<open>None\<close> when the run of digits and underscores there is not one (empty, or an
  underscore that is not between two digits).
\<close>

fun underscores_ok :: "string \<Rightarrow> bool" where
  "underscores_ok [] = True"
| "underscores_ok [c] = is_digit c"
| "underscores_ok (c # c' # cs) =
     ((is_digit c \<or> is_digit c') \<and> underscores_ok (c' # cs))"

definition digitpart :: "string \<Rightarrow> (string \<times> string) option" where
  "digitpart s =
     (let run = takeWhile (\<lambda>c. is_digit c \<or> c = CHR ''_'') s;
          rest = dropWhile (\<lambda>c. is_digit c \<or> c = CHR ''_'') s
      in if run \<noteq> [] \<and> is_digit (hd run) \<and> underscores_ok run
         then Some (filter is_digit run, rest) else None)"

definition opt_digitpart :: "string \<Rightarrow> (string \<times> string) option" where
  "opt_digitpart s =
     (if s \<noteq> [] \<and> (is_digit (hd s) \<or> hd s = CHR ''_'') then digitpart s else Some ([], s))"

definition sign_of :: "string \<Rightarrow> bool \<times> string" where
  "sign_of s =
     (case s of
        c # cs \<Rightarrow> if c = CHR ''-'' then (True, cs) else if c = CHR ''+'' then (False, cs)
                  else (False, s)
      | [] \<Rightarrow> (False, s))"

definition pow10 :: "int \<Rightarrow> rat" where
  "pow10 e = (if 0 \<le> e then 10 ^ nat e else 1 / 10 ^ nat (- e))"

text \<open>The exponent part: \<open>Some 0\<close> when the string is empty.\<close>

definition exponent :: "string \<Rightarrow> int option" where
  "exponent s =
     (case s of
        [] \<Rightarrow> Some 0
      | c # cs \<Rightarrow>
          if c = CHR ''e'' \<or> c = CHR ''E'' then
            (case digitpart (snd (sign_of cs)) of
               Some (ds, []) \<Rightarrow>
                 Some (if fst (sign_of cs) then - digits_val ds else digits_val ds)
             | _ \<Rightarrow> None)
          else None)"

definition floatnumber :: "string \<Rightarrow> rat option" where
  "floatnumber s =
     (case opt_digitpart s of
        None \<Rightarrow> None
      | Some (ip, r1) \<Rightarrow>
          (case (case r1 of
                   c # cs \<Rightarrow> if c = CHR ''.'' then opt_digitpart cs else Some ([], r1)
                 | [] \<Rightarrow> Some ([], r1)) of
             None \<Rightarrow> None
           | Some (fp, r2) \<Rightarrow>
               if ip = [] \<and> fp = [] then None
               else (case exponent r2 of
                       None \<Rightarrow> None
                     | Some e \<Rightarrow>
                         Some (of_int (digits_val (ip @ fp)) * pow10 (e - int (length fp))))))"

definition py_float :: "string \<Rightarrow> error + pyfloat" where
  "py_float s =
     (let body = snd (sign_of (strip_number s)); neg = fst (sign_of (strip_number s))
      in if lower body = ''inf'' \<or> lower body = ''infinity''
         then Inr (if neg then NInf else PInf)
         else if lower body = ''nan'' then Inr NaN
         else (case floatnumber body of
                 None \<Rightarrow> Inl ValueError
               | Some q \<Rightarrow> Inr (round64 neg q)))"

text \<open>\<^verbatim>\<open>float(v)\<close> on what \<^verbatim>\<open>xmltodict\<close> returns: only a string can be converted.\<close>

fun float_of :: "pyval \<Rightarrow> error + pyfloat" where
  "float_of (PStr s) = py_float s"
| "float_of PNone = Inl TypeError"
| "float_of (PDict d) = Inl TypeError"
| "float_of (PList vs) = Inl TypeError"

subsection \<open>\<^verbatim>\<open>int(s)\<close>, slices\<close>

text \<open>
  \<^verbatim>\<open>int(s)\<close> for a string (base 10): surrounding whitespace, an optional sign, digits
  with single underscores between them, and no more than 4300 digits (the default of
  \<^verbatim>\<open>sys.set_int_max_str_digits\<close>; leading zeros count, underscores do not); \<open>None\<close>
  stands for the \<^verbatim>\<open>ValueError\<close>.
\<close>

definition py_int :: "string \<Rightarrow> int option" where
  "py_int s =
     (case digitpart (snd (sign_of (strip_number s))) of
        Some (ds, []) \<Rightarrow>
          if 4300 < length ds then None
          else Some (if fst (sign_of (strip_number s)) then - digits_val ds else digits_val ds)
      | _ \<Rightarrow> None)"

text \<open>\<^verbatim>\<open>xs[start:stop]\<close>: a negative index counts from the end, both are clamped.\<close>

definition slice_index :: "nat \<Rightarrow> int \<Rightarrow> nat" where
  "slice_index n i = (if i < 0 then nat (max 0 (int n + i)) else min n (nat i))"

definition py_slice :: "'a list \<Rightarrow> int \<Rightarrow> int \<Rightarrow> 'a list" where
  "py_slice xs start stop =
     take (slice_index (length xs) stop - slice_index (length xs) start)
       (drop (slice_index (length xs) start) xs)"

subsection \<open>\<^verbatim>\<open>datetime.strptime\<close> with the format of the feed\<close>


definition timedelta_max :: int where
  "timedelta_max = (999999999 * 86400 + 86399) * 1000000 + 999999"

text \<open>The days before the first of January of a year (proleptic Gregorian calendar).\<close>

definition days_before_year :: "int \<Rightarrow> int" where
  "days_before_year y = 365 * (y - 1) + (y - 1) div 4 - (y - 1) div 100 + (y - 1) div 400"

text \<open>A run of between \<open>lo\<close> and \<open>hi\<close> digits: its digits and the rest of the string.\<close>

definition number :: "nat \<Rightarrow> nat \<Rightarrow> string \<Rightarrow> (string \<times> string) option" where
  "number lo hi s =
     (if lo \<le> length (takeWhile is_digit s) \<and> length (takeWhile is_digit s) \<le> hi
      then Some (takeWhile is_digit s, dropWhile is_digit s) else None)"

text \<open>One literal character of the format; the match ignores case.\<close>

definition literal :: "char \<Rightarrow> string \<Rightarrow> string option" where
  "literal c s = (case s of [] \<Rightarrow> None | c' # r \<Rightarrow> if lower [c'] = lower [c] then Some r else None)"

text \<open>
  The fields of \<^verbatim>\<open>%Y-%jT%H:%M:%S.%fZ\<close>: a year of four digits, a day of the year
  \<open>1..366\<close>, an hour \<open>0..23\<close>, a minute \<open>0..59\<close>, a second \<open>0..61\<close> and a fraction of one
  to six digits, padded with zeros on the right to microseconds; nothing may follow.
\<close>

definition strptime_fields :: "string \<Rightarrow> (int \<times> int \<times> int \<times> int \<times> int \<times> int) option" where
  "strptime_fields s =
     Option.bind (number 4 4 s) (\<lambda>(y, s1).
     Option.bind (literal CHR ''-'' s1) (\<lambda>s2.
     Option.bind (number 1 3 s2) (\<lambda>(j, s3).
     Option.bind (literal CHR ''T'' s3) (\<lambda>s4.
     Option.bind (number 1 2 s4) (\<lambda>(h, s5).
     Option.bind (literal CHR '':'' s5) (\<lambda>s6.
     Option.bind (number 1 2 s6) (\<lambda>(mi, s7).
     Option.bind (literal CHR '':'' s7) (\<lambda>s8.
     Option.bind (number 1 2 s8) (\<lambda>(sec, s9).
     Option.bind (literal CHR ''.'' s9) (\<lambda>s10.
     Option.bind (number 1 6 s10) (\<lambda>(f, s11).
       if s11 = ''Z'' \<or> s11 = ''z'' then
         (if 1 \<le> digits_val j \<and> digits_val j \<le> 366 \<and> digits_val h \<le> 23 \<and>
             digits_val mi \<le> 59 \<and> digits_val sec \<le> 61
          then Some (digits_val y, digits_val j, digits_val h, digits_val mi, digits_val sec,
                 digits_val f * 10 ^ (6 - length f))
          else None)
       else None)))))))))))"

text \<open>
  \<^verbatim>\<open>datetime.strptime(v, "%Y-%jT%H:%M:%S.%fZ")\<close>: a value that is not a string is a
  \<^verbatim>\<open>TypeError\<close>; a string that does not match, a year \<open>0\<close>, a second \<open>60\<close> or \<open>61\<close>
  and a day beyond 9999-12-31 are a \<^verbatim>\<open>ValueError\<close>.  The date is the first of
  January of the year plus the day of the year less one.
\<close>

fun strptime :: "pyval \<Rightarrow> error + int" where
  "strptime (PStr s) =
     (case strptime_fields s of
        None \<Rightarrow> Inl ValueError
      | Some (y, j, h, mi, sec, f) \<Rightarrow>
          if y < 1 \<or> 59 < sec \<or> 3652059 < days_before_year y + j then Inl ValueError
          else Inr ((((days_before_year y + j - 1) * 24 + h) * 60 + mi) * 60 * 1000000
                    + sec * 1000000 + f))"
| "strptime PNone = Inl TypeError"
| "strptime (PDict d) = Inl TypeError"
| "strptime (PList vs) = Inl TypeError"

section \<open>The tracker\<close>

subsection \<open>\<^verbatim>\<open>parse_xml_data\<close>\<close>

text \<open>
  One parsed entry: the dictionary with the keys \<^verbatim>\<open>EPOCH\<close>, \<^verbatim>\<open>X\<close>, \<^verbatim>\<open>Y\<close>, \<^verbatim>\<open>Z\<close>,
  \<^verbatim>\<open>X_DOT\<close>, \<^verbatim>\<open>Y_DOT\<close>, \<^verbatim>\<open>Z_DOT\<close>.  \<^verbatim>\<open>EPOCH\<close> holds what \<^verbatim>\<open>xmltodict\<close> gave for
  the element, unconverted.
\<close>

record state_vector =
  EPOCH :: pyval
  X :: pyfloat
  Y :: pyfloat
  Z :: pyfloat
  X_DOT :: pyfloat
  Y_DOT :: pyfloat
  Z_DOT :: pyfloat

text \<open>\<^verbatim>\<open>float(t[k]["#text"])\<close>\<close>

definition float_text :: "pyval \<Rightarrow> string \<Rightarrow> error + pyfloat" where
  "float_text t k = ebind (ebind (getitem t k) (\<lambda>v. getitem v ''#text'')) float_of"

text \<open>The dictionary display of the loop body, its items evaluated in order.\<close>

definition t_data :: "pyval \<Rightarrow> error + state_vector" where
  "t_data t =
     ebind (getitem t ''EPOCH'') (\<lambda>epoch.
     ebind (float_text t ''X'') (\<lambda>x.
     ebind (float_text t ''Y'') (\<lambda>y.
     ebind (float_text t ''Z'') (\<lambda>z.
     ebind (float_text t ''X_DOT'') (\<lambda>x_dot.
     ebind (float_text t ''Y_DOT'') (\<lambda>y_dot.
     ebind (float_text t ''Z_DOT'') (\<lambda>z_dot.
       Inr \<lparr>EPOCH = epoch, X = x, Y = y, Z = z, X_DOT = x_dot, Y_DOT = y_dot,
            Z_DOT = z_dot\<rparr>)))))))"

text \<open>The loop \<^verbatim>\<open>for t in epochs\<close>, with the list \<^verbatim>\<open>data\<close> built so far.\<close>

fun parse_loop :: "pyval list \<Rightarrow> state_vector list \<Rightarrow> error + state_vector list" where
  "parse_loop [] data = Inr data"
| "parse_loop (t # ts) data = ebind (t_data t) (\<lambda>d. parse_loop ts (data @ [d]))"

definition parse_xml_data :: "element \<Rightarrow> error + state_vector list" where
  "parse_xml_data xml_data =
     (let xml_dict = xmltodict_parse xml_data
      in ebind (getitem xml_dict ''ndm'') (\<lambda>ndm.
         ebind (getitem ndm ''oem'') (\<lambda>oem.
         ebind (getitem oem ''body'') (\<lambda>body.
         ebind (getitem body ''segment'') (\<lambda>segment.
         ebind (getitem segment ''data'') (\<lambda>dat.
         ebind (getitem dat ''stateVector'') (\<lambda>epochs.
         ebind (iter epochs) (\<lambda>ts. parse_loop ts []))))))))"

subsection \<open>\<^verbatim>\<open>calculate_speed\<close>\<close>

text \<open>The first argument is the C library behind \<^verbatim>\<open>**\<close>.\<close>

definition calculate_speed :: "libm \<Rightarrow> pyfloat \<Rightarrow> pyfloat \<Rightarrow> pyfloat \<Rightarrow> error + pyfloat" where
  "calculate_speed lm x_dot y_dot z_dot =
     ebind (float_pow2 lm x_dot) (\<lambda>a.
     ebind (float_pow2 lm y_dot) (\<lambda>b.
     ebind (float_pow2 lm z_dot) (\<lambda>c.
       math_sqrt (float_add (float_add a b) c))))"

subsection \<open>\<^verbatim>\<open>calculate_location\<close>\<close>

text \<open>
  The two services are arguments of the model: \<open>transform\<close> is the chain of
  \<^verbatim>\<open>astropy\<close> calls (GCRS at the epoch to ITRS to an \<^verbatim>\<open>EarthLocation\<close>) that gives
  latitude, longitude and height, \<open>reverse\<close> is \<^verbatim>\<open>Nominatim.reverse\<close>, which answers
  \<^verbatim>\<open>None\<close> when nothing matches the coordinates and a location with an address
  otherwise.  Either may raise.
\<close>

record location =
  address :: string

definition calculate_location ::
  "(int \<Rightarrow> pyfloat \<times> pyfloat \<times> pyfloat \<Rightarrow> error + pyfloat \<times> pyfloat \<times> pyfloat) \<Rightarrow>
   (pyfloat \<times> pyfloat \<Rightarrow> error + location option) \<Rightarrow>
   state_vector \<Rightarrow> error + pyfloat \<times> pyfloat \<times> pyfloat \<times> string" where
  "calculate_location transform reverse data =
     ebind (strptime (EPOCH data)) (\<lambda>epoch.
     ebind (transform epoch (X data, Y data, Z data)) (\<lambda>(lat, lon, alt).
     ebind (reverse (lat, lon)) (\<lambda>loc.
       Inr (lat, lon, alt,
            (case loc of Some l \<Rightarrow> address l | None \<Rightarrow> ''Address not found'')))))"

subsection \<open>\<^verbatim>\<open>get_current_info\<close>\<close>

text \<open>
  The loop over \<^verbatim>\<open>data\<close> with its two variables \<^verbatim>\<open>closest\<close> and \<^verbatim>\<open>min_diff\<close>;
  \<^verbatim>\<open>break\<close> returns them as they are.  \<open>240001000\<close> microseconds are
  \<^verbatim>\<open>timedelta(minutes=4, milliseconds=1)\<close>.
\<close>

fun scan :: "int \<Rightarrow> state_vector list \<Rightarrow> state_vector option \<times> int \<Rightarrow>
    error + state_vector option \<times> int" where
  "scan current_time [] st = Inr st"
| "scan current_time (t # ts) st =
     ebind (strptime (EPOCH t)) (\<lambda>epoch_t.
       if current_time - epoch_t < - 240001000 then Inr st
       else if \<bar>current_time - epoch_t\<bar> < snd st
            then scan current_time ts (Some t, current_time - epoch_t)
            else scan current_time ts st)"

text \<open>
  \<open>current_time\<close> is what \<^verbatim>\<open>datetime.utcnow()\<close> returned.  Subscripting
  \<^verbatim>\<open>closest\<close> while it is still \<^verbatim>\<open>None\<close> is a \<^verbatim>\<open>TypeError\<close>.
\<close>

definition get_current_info ::
  "libm \<Rightarrow> int \<Rightarrow> state_vector list \<Rightarrow> error + state_vector \<times> pyfloat" where
  "get_current_info lm current_time data =
     ebind (scan current_time data (None, timedelta_max)) (\<lambda>st.
       case fst st of
         None \<Rightarrow> Inl TypeError
       | Some closest \<Rightarrow>
           ebind (calculate_speed lm (X_DOT closest) (Y_DOT closest) (Z_DOT closest)) (\<lambda>speed.
             Inr (closest, speed)))"



subsection \<open>The routes\<close>

text \<open>
  A view returns a body and a status; \<open>Inl e\<close> is an exception that leaves the view.
  \<open>iss_data\<close> is what \<^verbatim>\<open>download_iss_data\<close> returned: \<open>None\<close> when the request
  failed or the content was empty (both are false for \<^verbatim>\<open>if iss_data\<close>), the document
  otherwise.  A body is a plain text or the \<^verbatim>\<open>json.dumps\<close> of an object, which for
  \<^verbatim>\<open>/epochs\<close> with a slice is followed by a newline.
\<close>

datatype dumped = Records "state_vector list" | Record state_vector | Speed pyfloat

datatype body = Text string | Dumps dumped | DumpsLn dumped

type_synonym response = "body \<times> int"

text \<open>\<^verbatim>\<open>int(request.args.get(name, default))\<close>\<close>

definition int_arg :: "string option \<Rightarrow> int \<Rightarrow> int option" where
  "int_arg arg dflt = (case arg of None \<Rightarrow> Some dflt | Some s \<Rightarrow> py_int s)"

definition get_epochs :: "string option \<Rightarrow> string option \<Rightarrow> element option \<Rightarrow> error + response" where
  "get_epochs limit_arg offset_arg iss_data =
     (case iss_data of
        None \<Rightarrow> Inr (Text ''Failed to download ISS data.'', 500)
      | Some xml_data \<Rightarrow>
          ebind (parse_xml_data xml_data) (\<lambda>parsed_data.
            case int_arg limit_arg (int (length parsed_data)) of
              None \<Rightarrow> Inr (Text ''Invalid paramters; limit and offset must be integers.'', 500)
            | Some limit \<Rightarrow>
                (case int_arg offset_arg 0 of
                   None \<Rightarrow>
                     Inr (Text ''Invalid paramters; limit and offset must be integers.'', 500)
                 | Some offset \<Rightarrow>
                     if limit = int (length parsed_data) \<and> offset = 0
                     then Inr (Dumps (Records parsed_data), 200)
                     else Inr (DumpsLn (Records (py_slice parsed_data offset (offset + limit))),
                               200))))"

fun get_epoch_loop :: "string \<Rightarrow> state_vector list \<Rightarrow> response" where
  "get_epoch_loop epoch [] = (Text ''Epoch not found.'', 404)"
| "get_epoch_loop epoch (d # ds) =
     (if EPOCH d = PStr epoch then (Dumps (Record d), 200) else get_epoch_loop epoch ds)"

definition get_epoch :: "string \<Rightarrow> element option \<Rightarrow> error + response" where
  "get_epoch epoch iss_data =
     (case iss_data of
        None \<Rightarrow> Inr (Text ''Failed to download ISS data.'', 500)
      | Some xml_data \<Rightarrow>
          ebind (parse_xml_data xml_data) (\<lambda>parsed_data.
            Inr (get_epoch_loop epoch parsed_data)))"

text \<open>The speed as \<^verbatim>\<open>get_epoch_speed\<close> computes it in line.\<close>

fun get_epoch_speed_loop :: "libm \<Rightarrow> string \<Rightarrow> state_vector list \<Rightarrow> error + response" where
  "get_epoch_speed_loop lm epoch [] = Inr (Text ''Epoch not found.'', 404)"
| "get_epoch_speed_loop lm epoch (d # ds) =
     (if EPOCH d = PStr epoch
      then ebind (float_pow2 lm (X_DOT d)) (\<lambda>a.
           ebind (float_pow2 lm (Y_DOT d)) (\<lambda>b.
           ebind (float_pow2 lm (Z_DOT d)) (\<lambda>c.
           ebind (math_sqrt (float_add (float_add a b) c)) (\<lambda>speed.
             Inr (Dumps (Speed speed), 200)))))
      else get_epoch_speed_loop lm epoch ds)"

definition get_epoch_speed :: "libm \<Rightarrow> string \<Rightarrow> element option \<Rightarrow> error + response" where
  "get_epoch_speed lm epoch iss_data =
     (case iss_data of
        None \<Rightarrow> Inr (Text ''Failed to download ISS data.'', 500)
      | Some xml_data \<Rightarrow>
          ebind (parse_xml_data xml_data) (get_epoch_speed_loop lm epoch))"

section \<open>Feed documents\<close>

text \<open>
  The shape of a feed, in terms of its elements: the child elements with a given tag, the
  element reached from the root \<^verbatim>\<open>ndm\<close> through the single children \<^verbatim>\<open>oem\<close>,
  \<^verbatim>\<open>body\<close>, \<^verbatim>\<open>segment\<close> and \<^verbatim>\<open>data\<close>, and its \<^verbatim>\<open>stateVector\<close> elements.
\<close>

definition child_elements :: "string \<Rightarrow> element \<Rightarrow> element list" where
  "child_elements k e = filter (\<lambda>c. tag c = k) (children e)"

definition only_child :: "string \<Rightarrow> element \<Rightarrow> element option" where
  "only_child k e = (case child_elements k e of [c] \<Rightarrow> Some c | _ \<Rightarrow> None)"

definition feed_data :: "element \<Rightarrow> element option" where
  "feed_data doc =
     (if tag doc = ''ndm'' then
        Option.bind (only_child ''oem'' doc) (\<lambda>oem.
        Option.bind (only_child ''body'' oem) (\<lambda>b.
        Option.bind (only_child ''segment'' b) (\<lambda>seg. only_child ''data'' seg)))
      else None)"

definition state_vectors :: "element \<Rightarrow> element list option" where
  "state_vectors doc = map_option (child_elements ''stateVector'') (feed_data doc)"

text \<open>
  A well-formed entry has one \<^verbatim>\<open>EPOCH\<close> child, a plain element with text, and one
  child for each of the six numbers, an element with a \<^verbatim>\<open>units\<close> attribute (any
  attribute will do), no children and a text that \<^verbatim>\<open>float\<close> accepts.
\<close>

definition epoch_field :: "element \<Rightarrow> string option" where
  "epoch_field sv =
     (case child_elements ''EPOCH'' sv of
        [e] \<Rightarrow> if attribs e = [] \<and> children e = [] \<and> strip (cdata e) \<noteq> []
                then Some (strip (cdata e)) else None
      | _ \<Rightarrow> None)"

definition numeric_field :: "string \<Rightarrow> element \<Rightarrow> pyfloat option" where
  "numeric_field k sv =
     (case child_elements k sv of
        [f] \<Rightarrow> if attribs f \<noteq> [] \<and> children f = [] \<and> strip (cdata f) \<noteq> []
                then (case py_float (strip (cdata f)) of Inr v \<Rightarrow> Some v | Inl e \<Rightarrow> None)
                else None
      | _ \<Rightarrow> None)"

text \<open>The record a well-formed entry denotes.\<close>

definition state_vector_of :: "element \<Rightarrow> state_vector option" where
  "state_vector_of sv =
     Option.bind (epoch_field sv) (\<lambda>epoch.
     Option.bind (numeric_field ''X'' sv) (\<lambda>x.
     Option.bind (numeric_field ''Y'' sv) (\<lambda>y.
     Option.bind (numeric_field ''Z'' sv) (\<lambda>z.
     Option.bind (numeric_field ''X_DOT'' sv) (\<lambda>x_dot.
     Option.bind (numeric_field ''Y_DOT'' sv) (\<lambda>y_dot.
     Option.bind (numeric_field ''Z_DOT'' sv) (\<lambda>z_dot.
       Some \<lparr>EPOCH = PStr epoch, X = x, Y = y, Z = z, X_DOT = x_dot, Y_DOT = y_dot,
             Z_DOT = z_dot\<rparr>)))))))"

text \<open>The fixture of \<^verbatim>\<open>test_iss_tracker.py\<close>, and the feed around a list of entries.\<close>

definition field :: "string \<Rightarrow> string \<Rightarrow> string \<Rightarrow> element" where
  "field k units v = Element k [(''units'', units)] [] v"

definition entry :: "string \<Rightarrow> string \<Rightarrow> string \<Rightarrow> string \<Rightarrow> string \<Rightarrow> string \<Rightarrow> string \<Rightarrow> element" where
  "entry epoch x y z x_dot y_dot z_dot =
     Element ''stateVector'' []
       [Element ''EPOCH'' [] [] epoch, field ''X'' ''km'' x, field ''Y'' ''km'' y,
        field ''Z'' ''km'' z, field ''X_DOT'' ''km/s'' x_dot, field ''Y_DOT'' ''km/s'' y_dot,
        field ''Z_DOT'' ''km/s'' z_dot] []"

definition feed :: "element list \<Rightarrow> element" where
  "feed svs =
     Element ''ndm'' []
       [Element ''oem'' [(''id'', ''CCSDS_OEM_VERS''), (''version'', ''2.0'')]
          [Element ''body'' [] [Element ''segment'' [] [Element ''data'' [] svs []] []] []] []]
       []"

definition entry1 :: element where
  "entry1 = entry ''2024-045T12:04:00.000Z'' ''100.0'' ''200.0'' ''300.0'' ''1.0'' ''2.0'' ''3.0''"

definition entry2 :: element where
  "entry2 = entry ''2024-045T12:05:00.000Z'' ''150.0'' ''250.0'' ''350.0'' ''1.5'' ''2.5'' ''3.5''"

definition sample_xml_data :: element where
  "sample_xml_data = feed [entry1, entry2]"

definition record1 :: state_vector where
  "record1 = \<lparr>EPOCH = PStr ''2024-045T12:04:00.000Z'', X = Finite 100, Y = Finite 200,
     Z = Finite 300, X_DOT = Finite 1, Y_DOT = Finite 2, Z_DOT = Finite 3\<rparr>"

definition record2 :: state_vector where
  "record2 = \<lparr>EPOCH = PStr ''2024-045T12:05:00.000Z'', X = Finite 150, Y = Finite 250,
     Z = Finite 350, X_DOT = Finite (3 / 2), Y_DOT = Finite (5 / 2), Z_DOT = Finite (7 / 2)\<rparr>"


text \<open>
  Two stand-ins for the services, to run \<^verbatim>\<open>calculate_location\<close> on: a transform that
  hands the coordinates back and a geocoder that finds nothing.
\<close>

definition same_coordinates ::
  "int \<Rightarrow> pyfloat \<times> pyfloat \<times> pyfloat \<Rightarrow> error + pyfloat \<times> pyfloat \<times> pyfloat" where
  "same_coordinates epoch xyz = Inr xyz"

definition nothing_found :: "pyfloat \<times> pyfloat \<Rightarrow> error + location option" where
  "nothing_found latlon = Inr None"

text \<open>
  A record an hour after the first one, for a feed that is in order but not evenly
  sampled.
\<close>

definition record3 :: state_vector where
  "record3 = record2\<lparr>EPOCH := PStr ''2024-045T13:05:00.000Z''\<rparr>"

text \<open>
  The values a square and a sum of squares can take: zero, a finite value from the least
  positive binary64 value \<open>2 ^ -1074\<close> on, \<open>+inf\<close> and NaN.
\<close>

fun square_range :: "pyfloat \<Rightarrow> bool" where
  "square_range (Finite q) = (q = 0 \<or> pow2 (- 1074) \<le> q)"
| "square_range PInf = True"
| "square_range NaN = True"
| "square_range NegZero = False"
| "square_range NInf = False"

text \<open>
  A Python float is a binary64 value: rounding it gives it back.  The type \<open>pyfloat\<close>
  has a place for every rational, so a statement that depends on the spacing of the
  binary64 values asks for \<open>is_double\<close>.
\<close>

fun is_double :: "pyfloat \<Rightarrow> bool" where
  "is_double (Finite q) = (rnd64 q = Finite q)"
| "is_double x = True"

text \<open>
  The components for which no square and no sum leaves the normal range of binary64: zero,
  and the magnitudes from \<open>2 ^ -510\<close> to \<open>2 ^ 510\<close>.
\<close>

definition normal_component :: "rat \<Rightarrow> bool" where
  "normal_component q = (q = 0 \<or> (pow2 (- 510) \<le> \<bar>q\<bar> \<and> \<bar>q\<bar> \<le> pow2 510))"

section \<open>Properties\<close>

subsection \<open>Sequencing\<close>

lemma ebind_Inr [simp]: "ebind (Inr x) f = f x"
  by (simp add: ebind_def)

lemma ebind_Inl [simp]: "ebind (Inl e) f = Inl e"
  by (simp add: ebind_def)

subsection \<open>What \<^verbatim>\<open>xmltodict\<close> stores under a tag\<close>

lemma map_of_dict_set: "map_of (dict_set d k v) k' = (if k' = k then Some v else map_of d k')"
  by (induction d) auto

lemma map_of_push_data_other: "k' \<noteq> k \<Longrightarrow> map_of (push_data d k v) k' = map_of d k'"
  by (auto simp: push_data_def map_of_dict_set map_add_def split: option.splits pyval.splits)

lemma map_of_push_data_same:
  "map_of (push_data d k v) k =
     Some (case map_of d k of None \<Rightarrow> v | Some (PList vs) \<Rightarrow> PList (vs @ [v])
           | Some old \<Rightarrow> PList [old, v])"
  by (auto simp: push_data_def map_of_dict_set map_add_def split: option.splits pyval.splits)

lemma value_not_list: "xmltodict_value e \<noteq> PList vs"
  by (cases e) (simp add: Let_def)

lemma fold_attrs_None:
  "map_of d k = None \<Longrightarrow> k = [] \<or> hd k \<noteq> CHR ''@'' \<Longrightarrow>
   map_of (fold (\<lambda>kv d. dict_set d (CHR ''@'' # fst kv) (PStr (snd kv))) atts d) k = None"
proof (induction atts arbitrary: d)
  case Nil
  then show ?case by simp
next
  case (Cons a atts)
  have "map_of (dict_set d (CHR ''@'' # fst a) (PStr (snd a))) k = None"
    using Cons.prems by (auto simp: map_of_dict_set)
  then show ?case using Cons.IH Cons.prems(2) by simp
qed

text \<open>
  One child with the tag is stored as its value, several as the list of their values, in
  document order.
\<close>

lemma fold_push:
  "map_of d0 k = None \<Longrightarrow>
   map_of (fold (\<lambda>kv d. push_data d (fst kv) (snd kv))
             (map (\<lambda>c. (tag c, xmltodict_value c)) cs) d0) k =
     (case filter (\<lambda>c. tag c = k) cs of
        [] \<Rightarrow> None | [c] \<Rightarrow> Some (xmltodict_value c)
      | c # cs' \<Rightarrow> Some (PList (map xmltodict_value (c # cs'))))"
proof (induction cs rule: rev_induct)
  case Nil
  then show ?case by simp
next
  case (snoc c cs)
  show ?case
  proof (cases "tag c = k")
    case False
    then show ?thesis using snoc by (simp add: map_of_push_data_other)
  next
    case True
    show ?thesis
    proof (cases "filter (\<lambda>c. tag c = k) cs")
      case Nil
      then show ?thesis using snoc True by (simp add: map_of_push_data_same)
    next
      case (Cons c0 rest)
      show ?thesis
      proof (cases rest)
        case Nil
        then show ?thesis using snoc True Cons value_not_list [of c0]
          by (simp add: map_of_push_data_same split: pyval.splits)
      next
        case (Cons c1 rest')
        then show ?thesis using snoc True \<open>filter (\<lambda>c. tag c = k) cs = c0 # rest\<close>
          by (simp add: map_of_push_data_same)
      qed
    qed
  qed
qed

lemma getitem_children:
  assumes "k \<noteq> ''#text''" and "k = [] \<or> hd k \<noteq> CHR ''@''"
    and "child_elements k e = c # cs'"
  shows "getitem (xmltodict_value e) k =
           Inr (if cs' = [] then xmltodict_value c else PList (map xmltodict_value (c # cs')))"
proof (cases e)
  case (Element t atts cs dat)
  let ?attrs = "fold (\<lambda>kv d. dict_set d (CHR ''@'' # fst kv) (PStr (snd kv))) atts []"
  let ?item = "fold (\<lambda>kv d. push_data d (fst kv) (snd kv))
                 (map (\<lambda>c. (tag c, xmltodict_value c)) cs) ?attrs"
  have a: "map_of ?attrs k = None"
    using assms(2) by (intro fold_attrs_None) simp_all
  have f: "filter (\<lambda>c. tag c = k) cs = c # cs'"
    using assms(3) Element by (simp add: child_elements_def)
  have m: "map_of ?item k =
      Some (if cs' = [] then xmltodict_value c else PList (map xmltodict_value (c # cs')))"
    using fold_push [OF a, of cs] f by (simp split: list.splits)
  then have ne: "?item \<noteq> []" by auto
  have m': "map_of (push_data ?item ''#text'' v) k = map_of ?item k" for v
    using assms(1) by (simp add: map_of_push_data_other)
  show ?thesis
    unfolding Element using m ne m' by (simp add: Let_def)
qed

lemma getitem_only_child:
  assumes "only_child k e = Some c" and "k \<noteq> ''#text''" and "k = [] \<or> hd k \<noteq> CHR ''@''"
  shows "getitem (xmltodict_value e) k = Inr (xmltodict_value c)"
proof -
  have "child_elements k e = [c]"
    using assms(1) by (simp add: only_child_def split: list.splits)
  then show ?thesis using getitem_children [OF assms(2,3), of e c "[]"] by simp
qed

lemma push_data_not_Nil: "push_data d k v \<noteq> []"
proof
  assume "push_data d k v = []"
  then have "map_of (push_data d k v) k = None" by simp
  then show False by (simp add: map_of_push_data_same)
qed

lemma value_cases:
  "xmltodict_value e = PNone \<or> (\<exists>s. s \<noteq> [] \<and> xmltodict_value e = PStr s)
   \<or> (\<exists>d. d \<noteq> [] \<and> xmltodict_value e = PDict d)"
  by (cases e) (simp add: Let_def push_data_not_Nil)

lemma t_data_str [simp]: "t_data (PStr s) = Inl TypeError"
  by (simp add: t_data_def)

lemma iter_value_TypeError:
  "ebind (iter (xmltodict_value e)) (\<lambda>ts. parse_loop ts []) = Inl TypeError"
proof -
  consider "xmltodict_value e = PNone" | s where "s \<noteq> []" "xmltodict_value e = PStr s"
    | d where "d \<noteq> []" "xmltodict_value e = PDict d"
    using value_cases [of e] by blast
  then show ?thesis
  proof cases
    case 1
    then show ?thesis by simp
  next
    case 2
    then show ?thesis by (cases s) simp_all
  next
    case 3
    then show ?thesis by (cases d) simp_all
  qed
qed

lemma feed_data_getitems:
  assumes "feed_data doc = Some d"
  shows "parse_xml_data doc =
     ebind (getitem (xmltodict_value d) ''stateVector'') (\<lambda>epochs.
       ebind (iter epochs) (\<lambda>ts. parse_loop ts []))"
proof -
  from assms obtain oem b seg where t: "tag doc = ''ndm''"
    and 1: "only_child ''oem'' doc = Some oem" and 2: "only_child ''body'' oem = Some b"
    and 3: "only_child ''segment'' b = Some seg" and 4: "only_child ''data'' seg = Some d"
    by (auto simp: feed_data_def split: if_splits Option.bind_splits)
  show ?thesis
    unfolding parse_xml_data_def xmltodict_parse_def
    using t by (simp add: Let_def getitem_only_child [OF 1] getitem_only_child [OF 2]
      getitem_only_child [OF 3] getitem_only_child [OF 4])
qed

lemma single_state_vector:
  assumes "state_vectors doc = Some [sv]"
  shows "parse_xml_data doc = Inl TypeError"
proof -
  from assms obtain d where d: "feed_data doc = Some d"
    and c: "child_elements ''stateVector'' d = [sv]"
    by (auto simp: state_vectors_def)
  have "getitem (xmltodict_value d) ''stateVector'' = Inr (xmltodict_value sv)"
    using getitem_children [of "''stateVector''" d sv "[]"] c by simp
  then show ?thesis
    by (simp add: feed_data_getitems [OF d] iter_value_TypeError)
qed

subsection \<open>Exponents\<close>

lemma pow2_powi: "pow2 e = 2 powi e"
  by (simp add: pow2_def power_int_def power_one_over field_simps)

lemma pow2_pos [simp]: "0 < pow2 e"
  by (simp add: pow2_powi)

lemma pow2_add: "pow2 (a + b) = pow2 a * pow2 b"
  by (simp add: pow2_powi power_int_add)

lemma pow2_diff: "pow2 (a - b) = pow2 a / pow2 b"
  by (simp add: pow2_powi power_int_diff)

lemma pow2_mono: "a \<le> b \<Longrightarrow> pow2 a \<le> pow2 b"
  by (simp add: pow2_powi power_int_increasing)

lemma pow2_strict_mono: "a < b \<Longrightarrow> pow2 a < pow2 b"
  by (simp add: pow2_powi power_int_strict_increasing)

lemma pow2_le_iff: "pow2 a \<le> pow2 b \<longleftrightarrow> a \<le> b"
  using pow2_mono [of a b] pow2_strict_mono [of b a] by (auto simp: not_le [symmetric])

lemma pow2_nat: "0 \<le> e \<Longrightarrow> pow2 e = 2 ^ nat e"
  by (simp add: pow2_def)

lemma bits_nonpos: "n \<le> 0 \<Longrightarrow> bits n = 0"
  by (simp add: bits.simps)

lemma bits_rec: "0 < n \<Longrightarrow> bits n = 1 + bits (n div 2)"
  by (subst bits.simps) simp

lemma bits_pos: "0 < n \<Longrightarrow> 0 < bits n"
proof (induction n rule: bits.induct)
  case (1 n)
  show ?case
  proof (cases "0 < n div 2")
    case True
    with 1 show ?thesis by (simp add: bits_rec)
  next
    case False
    then have "bits (n div 2) = 0" by (simp add: bits_nonpos)
    with 1 show ?thesis by (simp add: bits_rec)
  qed
qed

lemma bits_bounds: "0 < n \<Longrightarrow> 2 ^ nat (bits n - 1) \<le> n \<and> n < 2 ^ nat (bits n)"
proof (induction n rule: bits.induct)
  case (1 n)
  show ?case
  proof (cases "n = 1")
    case True
    have "bits 1 = 1" by (simp add: bits_rec bits_nonpos)
    with True show ?thesis by simp
  next
    case False
    with 1 have pos: "0 < n div 2" by simp
    let ?b = "bits (n div 2)"
    have ih: "2 ^ nat (?b - 1) \<le> n div 2 \<and> n div 2 < 2 ^ nat ?b"
      using 1 pos by simp
    have bpos: "0 < ?b" using pos by (rule bits_pos)
    have bn: "bits n = 1 + ?b" using 1 by (simp add: bits_rec)
    have e1: "nat (bits n - 1) = Suc (nat (?b - 1))" using bn bpos by simp
    have e2: "nat (bits n) = Suc (nat ?b)" using bn bpos by simp
    have "2 * 2 ^ nat (?b - 1) \<le> n" using ih by linarith
    moreover have "n < 2 * 2 ^ nat ?b" using ih by linarith
    ultimately show ?thesis unfolding e1 e2 by simp
  qed
qed

lemma bits_bounds_rat:
  assumes "0 < n"
  shows "pow2 (bits n - 1) \<le> of_int n" and "of_int n < pow2 (bits n)"
proof -
  have b: "0 < bits n" using assms by (rule bits_pos)
  have "(2::int) ^ nat (bits n - 1) \<le> n" using bits_bounds [OF assms] by simp
  then have "of_int ((2::int) ^ nat (bits n - 1)) \<le> (of_int n :: rat)"
    by (simp only: of_int_le_iff)
  then show "pow2 (bits n - 1) \<le> of_int n" using b by (simp add: pow2_nat)
  have "n < (2::int) ^ nat (bits n)" using bits_bounds [OF assms] by simp
  then have "(of_int n :: rat) < of_int ((2::int) ^ nat (bits n))"
    by (simp only: of_int_less_iff)
  then show "of_int n < pow2 (bits n)" using b by (simp add: pow2_nat)
qed

lemma ilog2_bounds:
  assumes "0 < q"
  shows "pow2 (ilog2 q) \<le> q" and "q < pow2 (ilog2 q + 1)"
proof -
  obtain n d where qd: "quotient_of q = (n, d)" by (cases "quotient_of q")
  have dpos: "0 < d" using qd by (rule quotient_of_denom_pos)
  have q: "q = of_int n / of_int d" using qd by (rule quotient_of_div)
  have npos: "0 < n" using assms dpos q by (simp add: zero_less_divide_iff)
  let ?e0 = "bits n - bits d"
  have d1: "(0::rat) < of_int d" using dpos by simp
  have lo: "pow2 (?e0 - 1) < q"
  proof -
    have "pow2 (?e0 - 1) * of_int d < pow2 (?e0 - 1) * pow2 (bits d)"
      using bits_bounds_rat(2) [OF dpos] by simp
    also have "\<dots> = pow2 (bits n - 1)" by (simp add: pow2_add [symmetric])
    also have "\<dots> \<le> of_int n" using bits_bounds_rat(1) [OF npos] .
    finally show ?thesis using d1 by (simp add: q pos_less_divide_eq)
  qed
  have hi: "q < pow2 (?e0 + 1)"
  proof -
    have "of_int n < pow2 (bits n)" using bits_bounds_rat(2) [OF npos] .
    also have "\<dots> = pow2 (?e0 + 1) * pow2 (bits d - 1)" by (simp add: pow2_add [symmetric])
    also have "\<dots> \<le> pow2 (?e0 + 1) * of_int d"
      using bits_bounds_rat(1) [OF dpos] by simp
    finally show ?thesis using d1 by (simp add: q pos_divide_less_eq)
  qed
  have il: "ilog2 q = (if pow2 ?e0 \<le> q then ?e0 else ?e0 - 1)"
    by (simp add: ilog2_def qd Let_def)
  show "pow2 (ilog2 q) \<le> q" using lo by (simp add: il)
  show "q < pow2 (ilog2 q + 1)" using hi by (auto simp: il not_le)
qed

lemma ilog2_eqI:
  assumes "pow2 e \<le> q" and "q < pow2 (e + 1)"
  shows "ilog2 q = e"
proof -
  have qpos: "0 < q" using assms(1) pow2_pos [of e] by linarith
  have "pow2 (ilog2 q) < pow2 (e + 1)" using ilog2_bounds(1) [OF qpos] assms(2) by linarith
  then have a: "ilog2 q < e + 1" using pow2_le_iff [of "e + 1" "ilog2 q"] by (simp add: not_le [symmetric])
  have "pow2 e < pow2 (ilog2 q + 1)" using ilog2_bounds(2) [OF qpos] assms(1) by linarith
  then have b: "e < ilog2 q + 1" using pow2_le_iff [of "ilog2 q + 1" e] by (simp add: not_le [symmetric])
  from a b show ?thesis by simp
qed

subsection \<open>Rounding at a known exponent\<close>

lemma round64_eval:
  assumes "pow2 e \<le> a" and "a < pow2 (e + 1)"
  shows "round64 neg a =
     (let p = max (e - 52) (- 1074);
          m = round_half_even (a / pow2 p);
          v = of_int m * pow2 p
      in if pow2 1024 \<le> v then (if neg then NInf else PInf)
         else if m = 0 then (if neg then NegZero else Finite 0)
         else Finite (if neg then - v else v))"
proof -
  have "0 < a" using assms(1) pow2_pos [of e] by linarith
  then show ?thesis by (simp add: round64_def ilog2_eqI [OF assms])
qed

lemma round64_to_eval:
  assumes "pow2 e \<le> a" and "a < pow2 (e + 1)"
  shows "round64_to rnd a =
     (let p = max (e - 52) (- 1074);
          v = of_int (rnd (a / pow2 p)) * pow2 p
      in if pow2 1024 \<le> v then PInf else Finite v)"
  by (simp add: round64_to_def ilog2_eqI [OF assms])

subsection \<open>The integer square root\<close>

lemma isqrt_small: "n < 2 \<Longrightarrow> isqrt n = max n 0"
  by (subst isqrt.simps) simp

lemma isqrt_rec:
  "2 \<le> n \<Longrightarrow> isqrt n =
     (if (2 * isqrt (n div 4) + 1) * (2 * isqrt (n div 4) + 1) \<le> n
      then 2 * isqrt (n div 4) + 1 else 2 * isqrt (n div 4))"
  by (subst isqrt.simps) (simp add: Let_def)

lemma isqrt_bounds:
  "0 \<le> n \<Longrightarrow> 0 \<le> isqrt n \<and> isqrt n * isqrt n \<le> n \<and> n < (isqrt n + 1) * (isqrt n + 1)"
proof (induction n rule: isqrt.induct)
  case (1 n)
  show ?case
  proof (cases "n < 2")
    case True
    then have "n = 0 \<or> n = 1" using 1(2) by auto
    then show ?thesis by (auto simp: isqrt_small)
  next
    case False
    define q where "q = n div 4"
    define r0 where "r0 = isqrt q"
    have q0: "0 \<le> q" using 1(2) by (simp add: q_def)
    have ih: "0 \<le> r0 \<and> r0 * r0 \<le> q \<and> q < (r0 + 1) * (r0 + 1)"
      using 1(1) False q0 unfolding q_def r0_def by simp
    have n1: "4 * q \<le> n" and n2: "n < 4 * q + 4" unfolding q_def by presburger+
    have a: "(2 * r0) * (2 * r0) \<le> n"
    proof -
      have "(2 * r0) * (2 * r0) = 4 * (r0 * r0)" by simp
      also have "\<dots> \<le> 4 * q" using ih by simp
      finally show ?thesis using n1 by simp
    qed
    have b: "n < (2 * r0 + 2) * (2 * r0 + 2)"
    proof -
      have "q + 1 \<le> (r0 + 1) * (r0 + 1)" using ih by simp
      then have "4 * q + 4 \<le> 4 * ((r0 + 1) * (r0 + 1))" by simp
      also have "\<dots> = (2 * r0 + 2) * (2 * r0 + 2)" by (simp add: algebra_simps)
      finally show ?thesis using n2 by simp
    qed
    have rec: "isqrt n = (if (2 * r0 + 1) * (2 * r0 + 1) \<le> n then 2 * r0 + 1 else 2 * r0)"
      using False by (simp add: isqrt_rec r0_def q_def)
    show ?thesis
    proof (cases "(2 * r0 + 1) * (2 * r0 + 1) \<le> n")
      case True
      then have "isqrt n = 2 * r0 + 1" using rec by simp
      then show ?thesis using True b ih by (simp add: algebra_simps)
    next
      case nle: False
      then have "isqrt n = 2 * r0" using rec by simp
      then show ?thesis using nle a ih by (simp add: algebra_simps)
    qed
  qed
qed

lemma isqrt_eqI:
  assumes "0 \<le> r" and "r * r \<le> n" and "n < (r + 1) * (r + 1)"
  shows "isqrt n = r"
proof -
  have n0: "0 \<le> n" using assms(1,2) by (meson mult_nonneg_nonneg order_trans)
  note b = isqrt_bounds [OF n0]
  let ?s = "isqrt n"
  have "\<not> r < ?s"
  proof
    assume "r < ?s"
    then have "r + 1 \<le> ?s" by simp
    then have "(r + 1) * (r + 1) \<le> ?s * ?s" using assms(1) by (intro mult_mono) simp_all
    then show False using b assms(3) by simp
  qed
  moreover have "\<not> ?s < r"
  proof
    assume "?s < r"
    then have "?s + 1 \<le> r" by simp
    then have "(?s + 1) * (?s + 1) \<le> r * r" using b by (intro mult_mono) simp_all
    then show False using b assms(2) by simp
  qed
  ultimately show ?thesis by simp
qed

subsection \<open>Parsing well-formed entries\<close>

lemma dict_set_not_Nil: "dict_set d k v \<noteq> []"
  by (cases d) (auto split: if_splits)

lemma fold_attrs_not_Nil:
  "d \<noteq> [] \<Longrightarrow> fold (\<lambda>kv d. dict_set d (CHR ''@'' # fst kv) (PStr (snd kv))) atts d \<noteq> []"
  by (induction atts arbitrary: d) (simp_all add: dict_set_not_Nil)

lemma value_leaf:
  assumes "attribs e = []" and "children e = []" and "strip (cdata e) \<noteq> []"
  shows "xmltodict_value e = PStr (strip (cdata e))"
  using assms by (cases e) (simp add: Let_def)

lemma getitem_text:
  assumes "attribs e \<noteq> []" and "children e = []" and "strip (cdata e) \<noteq> []"
  shows "getitem (xmltodict_value e) ''#text'' = Inr (PStr (strip (cdata e)))"
proof (cases e)
  case (Element t atts cs dat)
  let ?attrs = "fold (\<lambda>kv d. dict_set d (CHR ''@'' # fst kv) (PStr (snd kv))) atts []"
  obtain a atts' where atts: "atts = a # atts'" using assms(1) Element by (cases atts) auto
  have ne: "?attrs \<noteq> []"
    unfolding atts by (simp add: fold_attrs_not_Nil dict_set_not_Nil)
  have "map_of ?attrs ''#text'' = None" by (intro fold_attrs_None) simp_all
  then have "map_of (push_data ?attrs ''#text'' v) ''#text'' = Some v" for v
    by (simp add: map_of_push_data_same)
  then show ?thesis using assms Element ne by (simp add: Let_def)
qed

lemma float_text_field:
  assumes "numeric_field k sv = Some v" and "k \<noteq> ''#text''" and "k = [] \<or> hd k \<noteq> CHR ''@''"
  shows "float_text (xmltodict_value sv) k = Inr v"
proof -
  from assms(1) obtain f where c: "child_elements k sv = [f]" and a: "attribs f \<noteq> []"
    and ch: "children f = []" and s: "strip (cdata f) \<noteq> []"
    and p: "py_float (strip (cdata f)) = Inr v"
    by (auto simp: numeric_field_def split: list.splits if_splits sum.splits)
  have "getitem (xmltodict_value sv) k = Inr (xmltodict_value f)"
    using getitem_children [OF assms(2,3), of sv f "[]"] c by simp
  then show ?thesis by (simp add: float_text_def getitem_text [OF a ch s] p)
qed

lemma t_data_entry:
  assumes "state_vector_of sv = Some r"
  shows "t_data (xmltodict_value sv) = Inr r"
proof -
  from assms obtain epoch x y z x_dot y_dot z_dot where
    e: "epoch_field sv = Some epoch" and x: "numeric_field ''X'' sv = Some x"
    and y: "numeric_field ''Y'' sv = Some y" and z: "numeric_field ''Z'' sv = Some z"
    and xd: "numeric_field ''X_DOT'' sv = Some x_dot"
    and yd: "numeric_field ''Y_DOT'' sv = Some y_dot"
    and zd: "numeric_field ''Z_DOT'' sv = Some z_dot"
    and r: "r = \<lparr>EPOCH = PStr epoch, X = x, Y = y, Z = z, X_DOT = x_dot, Y_DOT = y_dot,
             Z_DOT = z_dot\<rparr>"
    by (auto simp: state_vector_of_def split: Option.bind_splits)
  from e obtain ee where c: "child_elements ''EPOCH'' sv = [ee]" and a: "attribs ee = []"
    and ch: "children ee = []" and s: "strip (cdata ee) \<noteq> []" and ep: "epoch = strip (cdata ee)"
    by (auto simp: epoch_field_def split: list.splits if_splits)
  have g: "getitem (xmltodict_value sv) ''EPOCH'' = Inr (PStr epoch)"
    using getitem_children [of "''EPOCH''" sv ee "[]"] c value_leaf [OF a ch s] ep by simp
  show ?thesis
    by (simp add: t_data_def g r float_text_field [OF x] float_text_field [OF y]
        float_text_field [OF z] float_text_field [OF xd] float_text_field [OF yd]
        float_text_field [OF zd])
qed

lemma parse_loop_entries:
  "map state_vector_of svs = map Some rs \<Longrightarrow>
   parse_loop (map xmltodict_value svs) acc = Inr (acc @ rs)"
proof (induction svs arbitrary: rs acc)
  case Nil
  then show ?case by simp
next
  case (Cons sv svs)
  then obtain r rs' where rs: "rs = r # rs'" and r: "state_vector_of sv = Some r"
    and m: "map state_vector_of svs = map Some rs'"
    by (cases rs) auto
  show ?case using Cons.IH [OF m, of "acc @ [r]"] by (simp add: rs t_data_entry [OF r])
qed

lemma parse_entries:
  assumes "state_vectors doc = Some svs" and "2 \<le> length svs"
    and "map state_vector_of svs = map Some rs"
  shows "parse_xml_data doc = Inr rs"
proof -
  from assms(1) obtain d where d: "feed_data doc = Some d"
    and c: "child_elements ''stateVector'' d = svs"
    by (auto simp: state_vectors_def)
  from assms(2) obtain s1 s2 rest where svs: "svs = s1 # s2 # rest"
    by (cases svs; cases "tl svs") auto
  have "getitem (xmltodict_value d) ''stateVector'' = Inr (PList (map xmltodict_value svs))"
    using getitem_children [of "''stateVector''" d s1 "s2 # rest"] c svs by simp
  then show ?thesis
    using parse_loop_entries [OF assms(3), of "[]"] by (simp add: feed_data_getitems [OF d])
qed

subsection \<open>The fixture\<close>

lemmas float_grammar_defs = py_float_def strip_number_def number_space_def sign_of_def lower_def
  floatnumber_def opt_digitpart_def digitpart_def is_digit_def exponent_def digits_val_def
  digit_val_def pow10_def

lemma round64_r_100_0: "round64 False 100 = Finite 100"
  by (subst round64_eval [of 6]) (simp_all add: pow2_def round_half_even_def Let_def)

lemma round64_r_200_0: "round64 False 200 = Finite 200"
  by (subst round64_eval [of 7]) (simp_all add: pow2_def round_half_even_def Let_def)

lemma round64_r_300_0: "round64 False 300 = Finite 300"
  by (subst round64_eval [of 8]) (simp_all add: pow2_def round_half_even_def Let_def)

lemma round64_r_1_0: "round64 False 1 = Finite 1"
  by (subst round64_eval [of 0]) (simp_all add: pow2_def round_half_even_def Let_def)

lemma round64_r_2_0: "round64 False 2 = Finite 2"
  by (subst round64_eval [of 1]) (simp_all add: pow2_def round_half_even_def Let_def)

lemma round64_r_3_0: "round64 False 3 = Finite 3"
  by (subst round64_eval [of 1]) (simp_all add: pow2_def round_half_even_def Let_def)

lemma round64_r_150_0: "round64 False 150 = Finite 150"
  by (subst round64_eval [of 7]) (simp_all add: pow2_def round_half_even_def Let_def)

lemma round64_r_250_0: "round64 False 250 = Finite 250"
  by (subst round64_eval [of 7]) (simp_all add: pow2_def round_half_even_def Let_def)

lemma round64_r_350_0: "round64 False 350 = Finite 350"
  by (subst round64_eval [of 8]) (simp_all add: pow2_def round_half_even_def Let_def)

lemma round64_r_1_5: "round64 False (3 / 2) = Finite (3 / 2)"
  by (subst round64_eval [of 0]) (simp_all add: pow2_def round_half_even_def Let_def)

lemma round64_r_2_5: "round64 False (5 / 2) = Finite (5 / 2)"
  by (subst round64_eval [of 1]) (simp_all add: pow2_def round_half_even_def Let_def)

lemma round64_r_3_5: "round64 False (7 / 2) = Finite (7 / 2)"
  by (subst round64_eval [of 1]) (simp_all add: pow2_def round_half_even_def Let_def)

lemmas sample_roundings = round64_r_100_0 round64_r_200_0 round64_r_300_0 round64_r_1_0 round64_r_2_0 round64_r_3_0 round64_r_150_0 round64_r_250_0 round64_r_350_0 round64_r_1_5 round64_r_2_5 round64_r_3_5

lemma sample_floats:
  "py_float ''100.0'' = Inr (Finite 100)" "py_float ''200.0'' = Inr (Finite 200)"
  "py_float ''300.0'' = Inr (Finite 300)" "py_float ''1.0'' = Inr (Finite 1)"
  "py_float ''2.0'' = Inr (Finite 2)" "py_float ''3.0'' = Inr (Finite 3)"
  "py_float ''150.0'' = Inr (Finite 150)" "py_float ''250.0'' = Inr (Finite 250)"
  "py_float ''350.0'' = Inr (Finite 350)" "py_float ''1.5'' = Inr (Finite (3 / 2))"
  "py_float ''2.5'' = Inr (Finite (5 / 2))" "py_float ''3.5'' = Inr (Finite (7 / 2))"
  by (simp_all add: float_grammar_defs sample_roundings)

lemma entry_record:
  assumes "strip epoch = epoch" "epoch \<noteq> []"
   "strip x = x" "x \<noteq> []" "py_float x = Inr vx"
   "strip y = y" "y \<noteq> []" "py_float y = Inr vy"
   "strip z = z" "z \<noteq> []" "py_float z = Inr vz"
   "strip xd = xd" "xd \<noteq> []" "py_float xd = Inr vxd"
   "strip yd = yd" "yd \<noteq> []" "py_float yd = Inr vyd"
   "strip zd = zd" "zd \<noteq> []" "py_float zd = Inr vzd"
  shows "state_vector_of (entry epoch x y z xd yd zd) =
    Some \<lparr>EPOCH = PStr epoch, X = vx, Y = vy, Z = vz, X_DOT = vxd, Y_DOT = vyd, Z_DOT = vzd\<rparr>"
  using assms
  by (simp add: state_vector_of_def epoch_field_def numeric_field_def child_elements_def
      entry_def field_def)

lemma entry1_record: "state_vector_of entry1 = Some record1"
  unfolding entry1_def record1_def
  by (rule entry_record) (simp_all add: sample_floats strip_def py_isspace_def)

lemma entry2_record: "state_vector_of entry2 = Some record2"
  unfolding entry2_def record2_def
  by (rule entry_record) (simp_all add: sample_floats strip_def py_isspace_def)

lemma tag_entry [simp]: "tag (entry epoch x y z xd yd zd) = ''stateVector''"
  by (simp add: entry_def)

lemma state_vectors_feed:
  "list_all (\<lambda>c. tag c = ''stateVector'') svs \<Longrightarrow> state_vectors (feed svs) = Some svs"
  by (simp add: state_vectors_def feed_data_def feed_def only_child_def child_elements_def
      list_all_iff)

lemma tag_entry1 [simp]: "tag entry1 = ''stateVector''"
  by (simp add: entry1_def)

lemma tag_entry2 [simp]: "tag entry2 = ''stateVector''"
  by (simp add: entry2_def)

lemma sample_parsed: "parse_xml_data sample_xml_data = Inr [record1, record2]"
  unfolding sample_xml_data_def
  by (rule parse_entries [where svs = "[entry1, entry2]"])
    (simp_all add: state_vectors_feed entry1_record entry2_record)

subsection \<open>The speed of the fixture\<close>

lemma floor_numeral_div:
  "\<lfloor>numeral a / numeral b :: rat\<rfloor> = numeral a div numeral b"
  using floor_divide_of_int_eq [of "numeral a" "numeral b", where ?'a = rat] by simp

lemma sqrt64_eval:
  assumes "pow2 e \<le> q" and "q < pow2 (e + 1)" and "0 \<le> s"
    and "s * s \<le> \<lfloor>q / pow2 (2 * (e div 2 - 52))\<rfloor>"
    and "\<lfloor>q / pow2 (2 * (e div 2 - 52))\<rfloor> < (s + 1) * (s + 1)"
  shows "sqrt64 q =
     (let x = q / pow2 (2 * (e div 2 - 52));
          h = (of_int s + 1 / 2) * (of_int s + 1 / 2);
          m = (if x < h then s else if h < x then s + 1 else if even s then s else s + 1)
      in of_int m * pow2 (e div 2 - 52))"
proof -
  have i: "ilog2 q = e" using assms(1,2) by (rule ilog2_eqI)
  have r: "isqrt \<lfloor>q / pow2 (2 * (e div 2 - 52))\<rfloor> = s" using assms(3,4,5) by (rule isqrt_eqI)
  show ?thesis unfolding sqrt64_def Let_def i r by (rule refl)
qed

lemma sqrt64_14: "sqrt64 14 = 8425463406411593 / 2251799813685248"
  by (subst sqrt64_eval [of 3 _ 8425463406411593]) (simp_all add: pow2_def Let_def)

text \<open>The squares of \<open>2.0\<close> and \<open>3.0\<close> are binary64 values: every library returns them.\<close>

lemma libm_pow2_2: "libm_pow2 lm 2 = Finite 4"
proof -
  have "round64_to rnd 4 = Finite 4" if "rnd = floor \<or> rnd = ceiling" for rnd
    using that by (subst round64_to_eval [of 2]) (auto simp: pow2_def Let_def)
  then show ?thesis by (simp add: libm_pow2_def)
qed

lemma libm_pow2_3: "libm_pow2 lm 3 = Finite 9"
proof -
  have "round64_to rnd 9 = Finite 9" if "rnd = floor \<or> rnd = ceiling" for rnd
    using that by (subst round64_to_eval [of 3]) (auto simp: pow2_def Let_def)
  then show ?thesis by (simp add: libm_pow2_def)
qed

lemma round64_5: "round64 False 5 = Finite 5"
  by (subst round64_eval [of 2]) (simp_all add: pow2_def round_half_even_def Let_def)

lemma round64_14: "round64 False 14 = Finite 14"
  by (subst round64_eval [of 3]) (simp_all add: pow2_def round_half_even_def Let_def)

lemma calculate_speed_1_2_3:
  "calculate_speed lm (Finite 1) (Finite 2) (Finite 3) =
     Inr (Finite (8425463406411593 / 2251799813685248))"
  by (simp add: calculate_speed_def libm_pow2_2 libm_pow2_3 float_add_def rnd64_def
      round64_5 round64_14 sqrt64_14)

lemma py_float_sqrt_14:
  "py_float ''3.7416573867739413'' = Inr (Finite (8425463406411593 / 2251799813685248))"
proof -
  have "round64 False (37416573867739413 / 10000000000000000)
      = Finite (8425463406411593 / 2251799813685248)"
    by (subst round64_eval [of 1])
      (simp_all add: pow2_def round_half_even_def Let_def floor_numeral_div)
  then show ?thesis by (simp add: float_grammar_defs Let_def)
qed

subsection \<open>A feed with one entry\<close>

text \<open>
  C1.  For a document with exactly one \<^verbatim>\<open>stateVector\<close> element \<^verbatim>\<open>xmltodict\<close> stores
  the entry itself, not a list; the loop of \<^verbatim>\<open>parse_xml_data\<close> then runs over the keys
  of that dictionary, and subscripting the first key, a string, raises a \<^verbatim>\<open>TypeError\<close>.
  No one-element sequence is returned.
\<close>

theorem parse_xml_data_single_entry:
  assumes "state_vectors doc = Some [sv]"
  shows "parse_xml_data doc = Inl TypeError \<and> (\<forall>rs. parse_xml_data doc \<noteq> Inr rs)"
  using single_state_vector [OF assms] by simp

theorem parse_xml_data_single_entry_witness:
  "state_vectors (feed [entry2]) = Some [entry2] \<and>
   parse_xml_data (feed [entry2]) = Inl TypeError"
proof -
  have s: "state_vectors (feed [entry2]) = Some [entry2]"
    by (simp add: state_vectors_feed)
  from parse_xml_data_single_entry [OF s] s show ?thesis by simp
qed

text \<open>
  C6.  The feed that holds the first entry of the fixture alone is well formed and has
  \<open>N = 1\<close> entries, the entry denotes a record, and yet \<^verbatim>\<open>parse_xml_data\<close> raises
  instead of returning that one record.
\<close>

theorem parse_xml_data_one_of_fixture:
  "state_vectors (feed [entry1]) = Some [entry1] \<and> state_vector_of entry1 = Some record1 \<and>
   parse_xml_data (feed [entry1]) = Inl TypeError"
proof -
  have s: "state_vectors (feed [entry1]) = Some [entry1]"
    by (simp add: state_vectors_feed)
  show ?thesis using s single_state_vector [OF s] entry1_record by simp
qed

lemma state_vector_of_epoch: "state_vector_of sv = Some r \<Longrightarrow> \<exists>s. EPOCH r = PStr s"
  by (auto simp: state_vector_of_def split: Option.bind_splits)

text \<open>
  X1.  A document with two or more \<^verbatim>\<open>stateVector\<close> elements, each well formed, is
  parsed into as many records, in document order: the record of each entry, with every
  number converted by \<^verbatim>\<open>float\<close> and \<^verbatim>\<open>EPOCH\<close> a string.
\<close>

theorem parse_xml_data_entries:
  assumes "state_vectors doc = Some svs" and "2 \<le> length svs"
    and "map state_vector_of svs = map Some rs"
  shows "parse_xml_data doc = Inr rs \<and> length rs = length svs \<and>
         (\<forall>r \<in> set rs. \<exists>s. EPOCH r = PStr s)"
proof -
  have l: "length rs = length svs"
    using assms(3) by (metis length_map)
  have "\<exists>s. EPOCH r = PStr s" if "r \<in> set rs" for r
  proof -
    from that have "Some r \<in> set (map state_vector_of svs)" using assms(3) by simp
    then obtain sv where "state_vector_of sv = Some r" by auto
    then show ?thesis by (rule state_vector_of_epoch)
  qed
  then show ?thesis using parse_entries [OF assms] l by simp
qed

theorem parse_xml_data_entries_witness:
  "state_vectors sample_xml_data = Some [entry1, entry2] \<and> 2 \<le> length [entry1, entry2] \<and>
   map state_vector_of [entry1, entry2] = map Some [record1, record2] \<and>
   parse_xml_data sample_xml_data = Inr [record1, record2]"
proof -
  have s: "state_vectors sample_xml_data = Some [entry1, entry2]"
    by (simp add: sample_xml_data_def state_vectors_feed)
  have l: "2 \<le> length [entry1, entry2]" by simp
  have m: "map state_vector_of [entry1, entry2] = map Some [record1, record2]"
    by (simp add: entry1_record entry2_record)
  from parse_xml_data_entries [OF s l m] s l m show ?thesis by simp
qed

lemma parse_loop_complete:
  "parse_loop ts data = Inr rs \<Longrightarrow> \<exists>ds. rs = data @ ds \<and> map t_data ts = map Inr ds"
proof (induction ts arbitrary: data)
  case Nil
  then show ?case by simp
next
  case (Cons t ts)
  from Cons.prems obtain d where d: "t_data t = Inr d"
    and r: "parse_loop ts (data @ [d]) = Inr rs"
    by (cases "t_data t") simp_all
  from Cons.IH [OF r] obtain ds where "rs = (data @ [d]) @ ds" "map t_data ts = map Inr ds"
    by blast
  then have "rs = data @ (d # ds) \<and> map t_data (t # ts) = map Inr (d # ds)"
    using d by simp
  then show ?case by blast
qed

text \<open>
  X2.  The loop of \<^verbatim>\<open>parse_xml_data\<close> returns all records or none: a result holds the
  record of every entry, and an entry that cannot be converted makes the whole call raise.
\<close>

theorem parse_loop_all_or_nothing:
  "(parse_loop ts [] = Inr rs \<longrightarrow> map t_data ts = map Inr rs) \<and>
   ((\<exists>t \<in> set ts. \<exists>e. t_data t = Inl e) \<longrightarrow> (\<exists>e. parse_loop ts [] = Inl e))"
proof -
  have a: "map t_data ts = map Inr rs" if "parse_loop ts [] = Inr rs" for rs
    using parse_loop_complete [OF that] by simp
  have b: "\<exists>e. parse_loop ts [] = Inl e" if "t \<in> set ts" "t_data t = Inl e" for t e
  proof (cases "parse_loop ts []")
    case (Inl e')
    then show ?thesis by simp
  next
    case (Inr rs')
    from a [OF Inr] have "t_data t \<in> set (map Inr rs')" using that(1) by (metis imageI set_map)
    then show ?thesis using that(2) by auto
  qed
  show ?thesis using a b by blast
qed

theorem parse_loop_all_or_nothing_witness:
  "PStr ''EPOCH'' \<in> set [xmltodict_value entry1, PStr ''EPOCH''] \<and>
   t_data (PStr ''EPOCH'') = Inl TypeError \<and>
   (\<exists>e. parse_loop [xmltodict_value entry1, PStr ''EPOCH''] [] = Inl e)"
proof -
  have t: "t_data (PStr ''EPOCH'') = Inl TypeError" by simp
  have m: "PStr ''EPOCH'' \<in> set [xmltodict_value entry1, PStr ''EPOCH'']" by simp
  from parse_loop_all_or_nothing [of "[xmltodict_value entry1, PStr ''EPOCH'']"] t m
  have "\<exists>e. parse_loop [xmltodict_value entry1, PStr ''EPOCH''] [] = Inl e" by blast
  with t m show ?thesis by simp
qed

subsection \<open>The routes\<close>

lemma get_epoch_loop_find:
  "get_epoch_loop epoch parsed_data =
     (case find (\<lambda>d. EPOCH d = PStr epoch) parsed_data of
        None \<Rightarrow> (Text ''Epoch not found.'', 404)
      | Some d \<Rightarrow> (Dumps (Record d), 200))"
  by (induction parsed_data) simp_all

text \<open>
  C8.  When the feed was fetched and parsed, \<^verbatim>\<open>/epochs/<epoch>\<close> answers 404 exactly
  when no parsed record has that \<^verbatim>\<open>EPOCH\<close>, and 200 with the first record that has it
  otherwise.
\<close>

theorem get_epoch_not_found_iff:
  assumes "parse_xml_data xml_data = Inr parsed_data"
  shows "\<exists>b status. get_epoch epoch (Some xml_data) = Inr (b, status) \<and>
           (status = 404 \<longleftrightarrow> (\<forall>d \<in> set parsed_data. EPOCH d \<noteq> PStr epoch)) \<and>
           (status = 200 \<longleftrightarrow> (\<exists>d \<in> set parsed_data. EPOCH d = PStr epoch)) \<and>
           (\<forall>d. find (\<lambda>d. EPOCH d = PStr epoch) parsed_data = Some d \<longrightarrow>
                b = Dumps (Record d) \<and> status = 200)"
proof (cases "find (\<lambda>d. EPOCH d = PStr epoch) parsed_data")
  case None
  then have "\<forall>d \<in> set parsed_data. EPOCH d \<noteq> PStr epoch"
    by (simp add: find_None_iff)
  then show ?thesis using None assms
    by (simp add: get_epoch_def get_epoch_loop_find)
next
  case (Some d)
  then have "d \<in> set parsed_data \<and> EPOCH d = PStr epoch"
    by (auto simp: find_Some_iff)
  then show ?thesis using Some assms
    by (auto simp: get_epoch_def get_epoch_loop_find)
qed

theorem get_epoch_not_found_iff_witness:
  "parse_xml_data sample_xml_data = Inr [record1, record2] \<and>
   get_epoch ''2024-045T12:05:00.000Z'' (Some sample_xml_data) = Inr (Dumps (Record record2), 200) \<and>
   get_epoch ''2024-045T12:06:00.000Z'' (Some sample_xml_data) = Inr (Text ''Epoch not found.'', 404)"
proof -
  have f1: "find (\<lambda>d. EPOCH d = PStr ''2024-045T12:05:00.000Z'') [record1, record2] = Some record2"
    by (simp add: record1_def record2_def)
  have n: "\<forall>d \<in> set [record1, record2]. EPOCH d \<noteq> PStr ''2024-045T12:06:00.000Z''"
    by (simp add: record1_def record2_def)
  from get_epoch_not_found_iff [OF sample_parsed, of "''2024-045T12:05:00.000Z''"] f1
  have a: "get_epoch ''2024-045T12:05:00.000Z'' (Some sample_xml_data) = Inr (Dumps (Record record2), 200)"
    by auto
  from get_epoch_not_found_iff [OF sample_parsed, of "''2024-045T12:06:00.000Z''"] n
  obtain b where b: "get_epoch ''2024-045T12:06:00.000Z'' (Some sample_xml_data) = Inr (b, 404)"
    by auto
  have "get_epoch ''2024-045T12:06:00.000Z'' (Some sample_xml_data) = Inr (Text ''Epoch not found.'', 404)"
    using b by (simp add: get_epoch_def sample_parsed record1_def record2_def)
  with a sample_parsed show ?thesis by simp
qed

text \<open>
  C10.  The speed that \<^verbatim>\<open>/epochs/<epoch>/speed\<close> computes in line for the record it
  finds is the result of \<^verbatim>\<open>calculate_speed\<close> on that record's velocity components, the
  same value or the same exception.
\<close>

theorem get_epoch_speed_uses_calculate_speed:
  "get_epoch_speed lm epoch (Some xml_data) =
     ebind (parse_xml_data xml_data) (\<lambda>parsed_data.
       case find (\<lambda>d. EPOCH d = PStr epoch) parsed_data of
         None \<Rightarrow> Inr (Text ''Epoch not found.'', 404)
       | Some d \<Rightarrow>
           ebind (calculate_speed lm (X_DOT d) (Y_DOT d) (Z_DOT d)) (\<lambda>speed.
             Inr (Dumps (Speed speed), 200)))"
proof -
  have "get_epoch_speed_loop lm epoch parsed_data =
      (case find (\<lambda>d. EPOCH d = PStr epoch) parsed_data of
         None \<Rightarrow> Inr (Text ''Epoch not found.'', 404)
       | Some d \<Rightarrow>
           ebind (calculate_speed lm (X_DOT d) (Y_DOT d) (Z_DOT d)) (\<lambda>speed.
             Inr (Dumps (Speed speed), 200)))" for parsed_data
    by (induction parsed_data) (simp_all add: calculate_speed_def ebind_def split: sum.splits)
  then show ?thesis by (simp add: get_epoch_speed_def ebind_def split: sum.splits)
qed







lemma underscores_ok_digits: "\<forall>c \<in> set ds. is_digit c \<Longrightarrow> underscores_ok ds"
  by (induction ds rule: underscores_ok.induct) simp_all

lemma digit_not_space: "is_digit c \<Longrightarrow> \<not> number_space c"
  by (auto simp: is_digit_def number_space_def)

lemma strip_number_digits:
  assumes "\<forall>c \<in> set ds. is_digit c"
  shows "strip_number ds = ds"
proof -
  have d: "dropWhile number_space xs = xs" if "\<forall>c \<in> set xs. is_digit c" for xs
    using that by (cases xs) (simp_all add: digit_not_space)
  show ?thesis using assms by (simp add: strip_number_def d)
qed

lemma py_int_too_long:
  assumes "\<forall>c \<in> set ds. is_digit c" and "4300 < length ds"
  shows "py_int ds = None"
proof -
  from assms(2) obtain c cs where ds: "ds = c # cs" by (cases ds) auto
  then have c: "is_digit c" using assms(1) by simp
  then have "c \<noteq> CHR ''-''" "c \<noteq> CHR ''+''" by (auto simp: is_digit_def)
  then have s: "sign_of ds = (False, ds)" by (simp add: sign_of_def ds)
  have t: "takeWhile (\<lambda>c. is_digit c \<or> c = CHR ''_'') ds = ds"
    using assms(1) by (simp add: takeWhile_eq_all_conv)
  have r: "dropWhile (\<lambda>c. is_digit c \<or> c = CHR ''_'') ds = []"
    using assms(1) by simp
  have f: "filter is_digit ds = ds" using assms(1) by (simp add: filter_id_conv)
  have "digitpart ds = Some (ds, [])"
    unfolding digitpart_def Let_def t r f
    using c underscores_ok_digits [OF assms(1)] by (simp add: ds)
  then show ?thesis
    using assms(2) by (simp add: py_int_def strip_number_digits [OF assms(1)] s)
qed

text \<open>
  X5.  A \<^verbatim>\<open>limit\<close> of more than 4300 digits is not converted by \<^verbatim>\<open>int\<close>: the route
  \<^verbatim>\<open>/epochs\<close> answers with the status 500, whatever the offset.
\<close>

theorem get_epochs_long_limit:
  assumes "\<forall>c \<in> set ds. is_digit c" and "4300 < length ds"
    and "parse_xml_data doc = Inr parsed"
  shows "get_epochs (Some ds) offset_arg (Some doc) =
           Inr (Text ''Invalid paramters; limit and offset must be integers.'', 500)"
  using assms(3) py_int_too_long [OF assms(1,2)] by (simp add: get_epochs_def int_arg_def)

theorem get_epochs_long_limit_witness:
  "(\<forall>c \<in> set (replicate 4301 CHR ''0''). is_digit c) \<and>
   4300 < length (replicate 4301 CHR ''0'') \<and>
   parse_xml_data sample_xml_data = Inr [record1, record2] \<and>
   get_epochs (Some (replicate 4301 CHR ''0'')) (Some ''0'') (Some sample_xml_data) =
     Inr (Text ''Invalid paramters; limit and offset must be integers.'', 500)"
proof -
  have d: "\<forall>c \<in> set (replicate 4301 CHR ''0''). is_digit c" by (simp add: is_digit_def)
  have l: "4300 < length (replicate 4301 CHR ''0'')" by simp
  from get_epochs_long_limit [OF d l sample_parsed, of "Some ''0''"] d l sample_parsed
  show ?thesis by (intro conjI)
qed

subsection \<open>The address of a place without one\<close>

lemma strptime_record1: "strptime (EPOCH record1) = Inr 63843509040000000"
  by (simp add: record1_def strptime_fields_def number_def literal_def lower_def is_digit_def
      digits_val_def digit_val_def days_before_year_def)

lemma strptime_record2: "strptime (EPOCH record2) = Inr 63843509100000000"
  by (simp add: record2_def strptime_fields_def number_def literal_def lower_def is_digit_def
      digits_val_def digit_val_def days_before_year_def)

text \<open>
  C4.  When the epoch parses, the transform succeeds and the reverse lookup finds no match
  (it returns \<^verbatim>\<open>None\<close>), \<^verbatim>\<open>calculate_location\<close> returns normally, with the string
  \<^verbatim>\<open>Address not found\<close> as the address.
\<close>

theorem calculate_location_no_match:
  assumes "strptime (EPOCH data) = Inr epoch"
    and "transform epoch (X data, Y data, Z data) = Inr (lat, lon, alt)"
    and "reverse (lat, lon) = Inr None"
  shows "calculate_location transform reverse data = Inr (lat, lon, alt, ''Address not found'')"
  using assms by (simp add: calculate_location_def)

theorem calculate_location_no_match_witness:
  "strptime (EPOCH record1) = Inr 63843509040000000 \<and>
   same_coordinates 63843509040000000 (X record1, Y record1, Z record1)
     = Inr (Finite 100, Finite 200, Finite 300) \<and>
   nothing_found (Finite 100, Finite 200) = Inr None \<and>
   calculate_location same_coordinates nothing_found record1
     = Inr (Finite 100, Finite 200, Finite 300, ''Address not found'')"
proof -
  have t: "same_coordinates 63843509040000000 (X record1, Y record1, Z record1)
     = Inr (Finite 100, Finite 200, Finite 300)"
    by (simp add: record1_def same_coordinates_def)
  have r: "nothing_found (Finite 100, Finite 200) = Inr None"
    by (simp add: nothing_found_def)
  from calculate_location_no_match [of record1 63843509040000000 same_coordinates
      "Finite 100" "Finite 200" "Finite 300" nothing_found, OF strptime_record1 t r]
    strptime_record1 t r
  show ?thesis by simp
qed

subsection \<open>A parsed epoch is a \<^verbatim>\<open>datetime\<close>\<close>








subsection \<open>The scan with the early exit and the full scan\<close>






subsection \<open>The nearest epoch\<close>

lemma strptime_record3: "strptime (EPOCH record3) = Inr 63843512700000000"
  by (simp add: record3_def record2_def strptime_fields_def number_def literal_def lower_def
      is_digit_def digits_val_def digit_val_def days_before_year_def)




text \<open>
  C3.  On an empty sequence the loop of \<^verbatim>\<open>get_current_info\<close> does not run,
  \<^verbatim>\<open>closest\<close> is still \<^verbatim>\<open>None\<close>, and \<^verbatim>\<open>closest["X_DOT"]\<close> raises a
  \<^verbatim>\<open>TypeError\<close>: the call ends in an exception of the interpreter, not in a
  "no data" error of the program's own.
\<close>

theorem get_current_info_empty: "get_current_info lm current_time [] = Inl TypeError"
  by (simp add: get_current_info_def)




text \<open>
  X3.  When the first record lies more than 4 minutes and 1 millisecond after the current
  time, the loop of \<^verbatim>\<open>get_current_info\<close> stops before it has kept a record, and the
  call raises a \<^verbatim>\<open>TypeError\<close>.
\<close>

theorem get_current_info_all_ahead:
  assumes "strptime (EPOCH t) = Inr e" and "current_time - e < - 240001000"
  shows "get_current_info lm current_time (t # ts) = Inl TypeError"
  using assms by (simp add: get_current_info_def)

theorem get_current_info_all_ahead_witness:
  "strptime (EPOCH record3) = Inr 63843512700000000 \<and>
   (63843509040000000 :: int) - 63843512700000000 < - 240001000 \<and>
   get_current_info nearest 63843509040000000 [record3] = Inl TypeError"
proof -
  have l: "(63843509040000000 :: int) - 63843512700000000 < - 240001000" by simp
  from get_current_info_all_ahead [OF strptime_record3 l, where ts = "[]" and lm = nearest] strptime_record3 l
  show ?thesis by simp
qed

subsection \<open>Squares, their sums and the square root\<close>

lemma pow2_nonneg [simp]: "0 \<le> pow2 e"
  using pow2_pos [of e] by (rule less_imp_le)

lemma pow2_neq_0 [simp]: "pow2 e \<noteq> 0"
  by (metis less_irrefl pow2_pos)

lemma square_range_nonneg:
  assumes "square_range (Finite q)"
  shows "0 \<le> q"
proof (cases "q = 0")
  case True
  then show ?thesis by simp
next
  case False
  then have "pow2 (- 1074) \<le> q" using assms by simp
  with pow2_pos [of "- 1074"] have "0 < q" by (rule less_le_trans)
  then show ?thesis by simp
qed

lemma round_half_even_ge: "\<lfloor>x\<rfloor> \<le> round_half_even x"
  by (simp add: round_half_even_def Let_def)

lemma round_half_even_cases: "round_half_even x = \<lfloor>x\<rfloor> \<or> round_half_even x = \<lceil>x\<rceil>"
proof (cases "x = of_int \<lfloor>x\<rfloor>")
  case True
  then show ?thesis by (simp add: round_half_even_def Let_def)
next
  case False
  then have "\<lceil>x\<rceil> = \<lfloor>x\<rfloor> + 1" by (simp add: ceiling_altdef)
  then show ?thesis by (simp add: round_half_even_def Let_def)
qed

lemma round_half_even_pos: "1 \<le> x \<Longrightarrow> 1 \<le> round_half_even x"
proof -
  assume "1 \<le> x"
  then have "1 \<le> \<lfloor>x\<rfloor>" by (simp add: le_floor_iff)
  then show ?thesis using round_half_even_ge [of x] by linarith
qed

lemma round_half_even_nonneg: "0 \<le> x \<Longrightarrow> 0 \<le> round_half_even x"
proof -
  assume "0 \<le> x"
  then have "0 \<le> \<lfloor>x\<rfloor>" by simp
  then show ?thesis using round_half_even_ge [of x] by linarith
qed

lemma round64_square_range:
  assumes "0 \<le> a"
  shows "square_range (round64 False a)"
proof (cases "a = 0")
  case True
  then show ?thesis by (simp add: round64_def)
next
  case False
  define p where "p = max (ilog2 a - 52) (- 1074)"
  define m where "m = round_half_even (a / pow2 p)"
  have p: "- 1074 \<le> p" by (simp add: p_def)
  have m0: "0 \<le> m" unfolding m_def using assms by (intro round_half_even_nonneg) simp
  have r: "round64 False a =
      (if pow2 1024 \<le> of_int m * pow2 p then PInf
       else if m = 0 then Finite 0 else Finite (of_int m * pow2 p))"
    using False by (simp add: round64_def Let_def p_def m_def)
  show ?thesis
  proof (cases "m = 0")
    case True
    then show ?thesis by (simp add: r)
  next
    case m: False
    then have "1 \<le> m" using m0 by simp
    then have "(1::rat) \<le> of_int m" by simp
    then have "1 * pow2 p \<le> of_int m * pow2 p" by (intro mult_right_mono) simp_all
    then have up: "pow2 p \<le> of_int m * pow2 p" by simp
    have "pow2 (- 1074) \<le> pow2 p" using p by (rule pow2_mono)
    from this up have "pow2 (- 1074) \<le> of_int m * pow2 p" by (rule order_trans)
    then show ?thesis using m by (simp add: r)
  qed
qed

lemma round64_not_zero:
  assumes "pow2 (- 1074) \<le> a"
  shows "round64 False a \<noteq> Finite 0"
proof -
  have apos: "0 < a" using assms pow2_pos [of "- 1074"] by linarith
  define p where "p = max (ilog2 a - 52) (- 1074)"
  define m where "m = round_half_even (a / pow2 p)"
  have "pow2 p \<le> a"
  proof (cases "ilog2 a - 52 \<le> - 1074")
    case True
    then show ?thesis using assms by (simp add: p_def max_def)
  next
    case False
    then have "p \<le> ilog2 a" by (simp add: p_def)
    then have "pow2 p \<le> pow2 (ilog2 a)" by (rule pow2_mono)
    then show ?thesis using ilog2_bounds(1) [OF apos] by linarith
  qed
  then have "1 \<le> a / pow2 p" by (simp add: le_divide_eq)
  then have m1: "1 \<le> m" unfolding m_def by (rule round_half_even_pos)
  then have "(0::rat) < of_int m * pow2 p" by simp
  then show ?thesis
    using apos m1 by (simp add: round64_def Let_def p_def [symmetric] m_def [symmetric])
qed

text \<open>
  With the library \<open>nearest\<close> a square is the exact square rounded to the nearest value.
\<close>

lemma libm_pow2_nearest:
  assumes "a \<noteq> 0"
  shows "libm_pow2 nearest a = round64 False (a * a)"
proof -
  define p where "p = max (ilog2 (a * a) - 52) (- 1074)"
  define m where "m = a * a / pow2 p"
  have n: "nearest a = (round_half_even m \<noteq> \<lfloor>m\<rfloor>)"
    by (simp add: nearest_def Let_def m_def p_def)
  have r: "(if nearest a then ceiling else floor) m = round_half_even m"
    using round_half_even_cases [of m] n by (cases "nearest a") simp_all
  have "libm_pow2 nearest a =
      (if pow2 1024 \<le> of_int ((if nearest a then ceiling else floor) m) * pow2 p then PInf
       else Finite (of_int ((if nearest a then ceiling else floor) m) * pow2 p))"
    unfolding libm_pow2_def round64_to_def Let_def p_def m_def by (rule refl)
  then have "libm_pow2 nearest a =
      (if pow2 1024 \<le> of_int (round_half_even m) * pow2 p then PInf
       else Finite (of_int (round_half_even m) * pow2 p))"
    unfolding r .
  moreover have "round64 False (a * a) =
      (if pow2 1024 \<le> of_int (round_half_even m) * pow2 p then PInf
       else Finite (of_int (round_half_even m) * pow2 p))"
    using assms by (simp add: round64_def Let_def p_def [symmetric] m_def [symmetric])
  ultimately show ?thesis by simp
qed

text \<open>What holds of a magnitude rounded down or up.\<close>

lemma round64_to_square_range:
  assumes "0 < a" and "\<And>y. \<lfloor>y\<rfloor> \<le> rnd y"
  shows "square_range (round64_to rnd a)"
proof -
  define p where "p = max (ilog2 a - 52) (- 1074)"
  define m where "m = rnd (a / pow2 p)"
  have p: "- 1074 \<le> p" by (simp add: p_def)
  have "0 \<le> \<lfloor>a / pow2 p\<rfloor>" using assms(1) by simp
  from this assms(2) have m0: "0 \<le> m" unfolding m_def by (rule order_trans)
  have r: "round64_to rnd a =
      (if pow2 1024 \<le> of_int m * pow2 p then PInf else Finite (of_int m * pow2 p))"
    by (simp add: round64_to_def Let_def p_def m_def)
  show ?thesis
  proof (cases "m = 0")
    case True
    then show ?thesis by (simp add: r)
  next
    case m: False
    then have "1 \<le> m" using m0 by simp
    then have "(1::rat) \<le> of_int m" by simp
    then have "1 * pow2 p \<le> of_int m * pow2 p" by (intro mult_right_mono) simp_all
    then have up: "pow2 p \<le> of_int m * pow2 p" by simp
    have "pow2 (- 1074) \<le> pow2 p" using p by (rule pow2_mono)
    from this up have "pow2 (- 1074) \<le> of_int m * pow2 p" by (rule order_trans)
    then show ?thesis by (simp add: r)
  qed
qed

lemma scaled_ge_1:
  assumes "pow2 (- 1074) \<le> a"
  shows "1 \<le> a / pow2 (max (ilog2 a - 52) (- 1074))"
proof -
  have apos: "0 < a" using pow2_pos [of "- 1074"] assms by (rule less_le_trans)
  define p where "p = max (ilog2 a - 52) (- 1074)"
  have "pow2 p \<le> a"
  proof (cases "ilog2 a - 52 \<le> - 1074")
    case True
    then show ?thesis using assms by (simp add: p_def max_def)
  next
    case False
    then have "p \<le> ilog2 a" by (simp add: p_def)
    then have "pow2 p \<le> pow2 (ilog2 a)" by (rule pow2_mono)
    from this ilog2_bounds(1) [OF apos] show ?thesis by (rule order_trans)
  qed
  then show ?thesis by (simp add: le_divide_eq p_def)
qed

lemma round64_to_not_zero:
  assumes "pow2 (- 1074) \<le> a" and "\<And>y. \<lfloor>y\<rfloor> \<le> rnd y"
  shows "round64_to rnd a \<noteq> Finite 0"
proof -
  define p where "p = max (ilog2 a - 52) (- 1074)"
  define m where "m = rnd (a / pow2 p)"
  have "1 \<le> a / pow2 p" unfolding p_def using assms(1) by (rule scaled_ge_1)
  then have "1 \<le> \<lfloor>a / pow2 p\<rfloor>" by (simp add: le_floor_iff)
  from this assms(2) have m1: "1 \<le> m" unfolding m_def by (rule order_trans)
  then show ?thesis
    by (auto simp: round64_to_def Let_def p_def [symmetric] m_def [symmetric])
qed

text \<open>From \<open>2 ^ 1024\<close> on the result is infinite, whatever the rounding.\<close>

lemma round64_to_overflow:
  assumes "pow2 1024 \<le> a" and "\<And>y. \<lfloor>y\<rfloor> \<le> rnd y"
  shows "round64_to rnd a = PInf"
proof -
  have apos: "0 < a" using pow2_pos [of 1024] assms(1) by (rule less_le_trans)
  define p where "p = ilog2 a - 52"
  define m where "m = rnd (a / pow2 p)"
  have "pow2 1024 < pow2 (ilog2 a + 1)"
    using assms(1) ilog2_bounds(2) [OF apos] by (rule le_less_trans)
  have i: "1024 \<le> ilog2 a"
  proof (rule ccontr)
    assume "\<not> 1024 \<le> ilog2 a"
    then have "ilog2 a + 1 \<le> 1024" by simp
    then have "pow2 (ilog2 a + 1) \<le> pow2 1024" by (rule pow2_mono)
    then show False using \<open>pow2 1024 < pow2 (ilog2 a + 1)\<close> by simp
  qed
  then have pm: "max (ilog2 a - 52) (- 1074) = p" by (simp add: p_def)
  have "pow2 (ilog2 a) \<le> a" using ilog2_bounds(1) [OF apos] .
  then have "pow2 (p + 52) \<le> a" by (simp add: p_def)
  then have "pow2 52 * pow2 p \<le> a" by (simp add: pow2_add mult.commute)
  then have "pow2 52 \<le> a / pow2 p" by (simp add: le_divide_eq)
  then have "(2::rat) ^ 52 \<le> a / pow2 p" by (simp add: pow2_def)
  then have "(2::int) ^ 52 \<le> \<lfloor>a / pow2 p\<rfloor>" by (simp add: le_floor_iff)
  from this assms(2) have "(2::int) ^ 52 \<le> m" unfolding m_def by (rule order_trans)
  then have "(of_int (2 ^ 52) :: rat) \<le> of_int m" by (simp only: of_int_le_iff)
  then have "pow2 52 \<le> of_int m" by (simp add: pow2_def)
  then have "pow2 52 * pow2 p \<le> of_int m * pow2 p" by (intro mult_right_mono) simp_all
  then have "pow2 (ilog2 a) \<le> of_int m * pow2 p" by (simp add: pow2_add [symmetric] p_def)
  moreover have "pow2 1024 \<le> pow2 (ilog2 a)" using i by (rule pow2_mono)
  ultimately have "pow2 1024 \<le> of_int m * pow2 p" by (rule order_trans [rotated])
  then show ?thesis by (simp add: round64_to_def Let_def pm m_def)
qed

text \<open>
  Up to the greatest binary64 value, \<open>(2 ^ 53 - 1) * 2 ^ 971\<close>, the result is finite,
  whatever the rounding.
\<close>

lemma round64_to_finite:
  assumes "0 < a" and "a \<le> (2 ^ 53 - 1) * pow2 971" and "\<And>y. rnd y \<le> \<lceil>y\<rceil>"
  shows "round64_to rnd a \<noteq> PInf"
proof -
  define p where "p = max (ilog2 a - 52) (- 1074)"
  define m where "m = rnd (a / pow2 p)"
  define n :: int where "n = (2 ^ 53 - 1) * 2 ^ nat (971 - p)"
  have b: "((2::rat) ^ 53 - 1) * pow2 971 < pow2 53 * pow2 971"
    by (intro mult_strict_right_mono) (simp_all add: pow2_def)
  then have "a < pow2 1024" using assms(2) by (simp add: pow2_add [symmetric])
  with ilog2_bounds(1) [OF assms(1)] have "pow2 (ilog2 a) < pow2 1024" by (rule le_less_trans)
  have "ilog2 a < 1024"
  proof (rule ccontr)
    assume "\<not> ilog2 a < 1024"
    then have "pow2 1024 \<le> pow2 (ilog2 a)" by (intro pow2_mono) simp
    then show False using \<open>pow2 (ilog2 a) < pow2 1024\<close> by simp
  qed
  then have p: "p \<le> 971" by (simp add: p_def)
  then have "pow2 971 = pow2 (971 - p) * pow2 p" by (simp add: pow2_add [symmetric])
  also have "pow2 (971 - p) = 2 ^ nat (971 - p)" using p by (intro pow2_nat) simp
  finally have e: "((2::rat) ^ 53 - 1) * pow2 971 = of_int n * pow2 p"
    by (simp add: n_def)
  then have "a \<le> of_int n * pow2 p" using assms(2) by simp
  then have "a / pow2 p \<le> of_int n" by (simp add: divide_le_eq)
  then have "\<lceil>a / pow2 p\<rceil> \<le> n" by (simp add: ceiling_le_iff)
  with assms(3) have "m \<le> n" unfolding m_def by (rule order_trans)
  then have "(of_int m :: rat) \<le> of_int n" by simp
  then have "of_int m * pow2 p \<le> of_int n * pow2 p" by (intro mult_right_mono) simp_all
  moreover from e b have "of_int n * pow2 p < pow2 53 * pow2 971" by simp
  ultimately have "of_int m * pow2 p < pow2 53 * pow2 971" by (rule le_less_trans)
  then have "\<not> pow2 1024 \<le> of_int m * pow2 p" by (simp add: pow2_add [symmetric] not_le)
  then show ?thesis by (simp add: round64_to_def Let_def p_def [symmetric] m_def [symmetric])
qed

text \<open>
  The greatest binary64 value below \<open>2 ^ 512\<close> is \<open>(2 ^ 53 - 1) * 2 ^ 459\<close>.
\<close>

lemma double_below:
  assumes "is_double (Finite q)" and "\<bar>q\<bar> < pow2 512"
  shows "\<bar>q\<bar> \<le> (2 ^ 53 - 1) * pow2 459"
proof (cases "q = 0")
  case True
  then show ?thesis by simp
next
  case False
  define a where "a = \<bar>q\<bar>"
  define p where "p = max (ilog2 a - 52) (- 1074)"
  define m where "m = round_half_even (a / pow2 p)"
  have apos: "0 < a" using False by (simp add: a_def)
  have "round64 (q < 0) a = Finite q" using assms(1) by (simp add: rnd64_def a_def)
  then have "\<bar>q\<bar> = of_int m * pow2 p"
    using apos False
    by (auto simp: round64_def Let_def p_def [symmetric] m_def [symmetric] abs_mult
        split: if_splits)
  then have am: "a = of_int m * pow2 p" by (simp add: a_def)
  have "pow2 (ilog2 a) < pow2 512"
    using ilog2_bounds(1) [OF apos] assms(2) unfolding a_def [symmetric] by (rule le_less_trans)
  have "ilog2 a < 512"
  proof (rule ccontr)
    assume "\<not> ilog2 a < 512"
    then have "pow2 512 \<le> pow2 (ilog2 a)" by (intro pow2_mono) simp
    then show False using \<open>pow2 (ilog2 a) < pow2 512\<close> by simp
  qed
  then have p: "p \<le> 459" by (simp add: p_def)
  have "ilog2 a + 1 \<le> p + 53" by (simp add: p_def)
  then have "pow2 (ilog2 a + 1) \<le> pow2 (p + 53)" by (rule pow2_mono)
  with ilog2_bounds(2) [OF apos] have "a < pow2 (p + 53)" by (rule less_le_trans)
  then have "of_int m * pow2 p < pow2 53 * pow2 p" by (simp add: am pow2_add mult.commute)
  then have "(of_int m :: rat) < pow2 53" by simp
  then have "(of_int m :: rat) < of_int (2 ^ 53)" by (simp add: pow2_def)
  then have "m < 2 ^ 53" by (simp only: of_int_less_iff)
  then have "m \<le> 2 ^ 53 - 1" by simp
  then have "(of_int m :: rat) \<le> of_int (2 ^ 53 - 1)" by (simp only: of_int_le_iff)
  then have m: "(of_int m :: rat) \<le> 2 ^ 53 - 1" by simp
  have "0 \<le> m" unfolding m_def using apos by (intro round_half_even_nonneg) simp
  then have "(0::rat) \<le> of_int m" by simp
  have "pow2 p \<le> pow2 459" using p by (rule pow2_mono)
  with m \<open>(0::rat) \<le> of_int m\<close> have "of_int m * pow2 p \<le> (2 ^ 53 - 1) * pow2 459"
    by (intro mult_mono) simp_all
  then show ?thesis by (simp add: am a_def [symmetric])
qed

lemma floor_le_choice: "\<lfloor>y\<rfloor> \<le> (if c then ceiling else floor) y"
  by simp

lemma choice_le_ceiling: "(if c then ceiling else floor) y \<le> \<lceil>y\<rceil>"
  by simp

lemma libm_pow2_square_range:
  assumes "a \<noteq> 0"
  shows "square_range (libm_pow2 lm a)"
proof -
  have "0 < a\<^sup>2" using assms by simp
  then have "0 < a * a" by (simp only: power2_eq_square)
  then show ?thesis unfolding libm_pow2_def
    by (intro round64_to_square_range floor_le_choice)
qed

lemma libm_pow2_overflow:
  assumes "pow2 512 \<le> a"
  shows "libm_pow2 lm a = PInf"
proof -
  have "0 \<le> a" using pow2_nonneg assms by (rule order_trans)
  then have "pow2 512 * pow2 512 \<le> a * a" using assms by (intro mult_mono) simp_all
  then have "pow2 1024 \<le> a * a" by (simp add: pow2_add [symmetric])
  then show ?thesis unfolding libm_pow2_def by (intro round64_to_overflow floor_le_choice)
qed

lemma libm_pow2_finite:
  assumes "0 < a" and "a \<le> (2 ^ 53 - 1) * pow2 459"
  shows "libm_pow2 lm a \<noteq> PInf"
proof -
  have sq: "pow2 459 * pow2 459 = pow2 918" by (simp add: pow2_add [symmetric])
  have "a * a \<le> ((2 ^ 53 - 1) * pow2 459) * ((2 ^ 53 - 1) * pow2 459)"
    using assms by (intro mult_mono) simp_all
  also have "\<dots> = ((2 ^ 53 - 1) * (2 ^ 53 - 1)) * (pow2 459 * pow2 459)"
    by simp
  also have "\<dots> = ((2 ^ 53 - 1) * (2 ^ 53 - 1)) * pow2 918"
    by (simp only: sq)
  also have "\<dots> \<le> ((2 ^ 53 - 1) * 2 ^ 53) * pow2 918"
    by (intro mult_right_mono) simp_all
  also have "\<dots> = (2 ^ 53 - 1) * (pow2 53 * pow2 918)" by (simp add: pow2_def)
  also have "\<dots> = (2 ^ 53 - 1) * pow2 971" by (simp add: pow2_add [symmetric])
  finally have "a * a \<le> (2 ^ 53 - 1) * pow2 971" .
  moreover have "0 < a * a" using assms(1) by simp
  ultimately show ?thesis unfolding libm_pow2_def
    by (intro round64_to_finite choice_le_ceiling)
qed

lemma float_pow2_cases:
  "float_pow2 lm x = Inl OverflowError \<or> (\<exists>a. float_pow2 lm x = Inr a \<and> square_range a)"
proof (cases x)
  case (Finite q)
  show ?thesis
  proof (cases "q = 0 \<or> \<bar>q\<bar> = 1")
    case True
    then show ?thesis using Finite by (auto simp: pow2_def)
  next
    case False
    then have "square_range (libm_pow2 lm \<bar>q\<bar>)" by (intro libm_pow2_square_range) simp
    then show ?thesis using Finite False
      by (cases "libm_pow2 lm \<bar>q\<bar>") simp_all
  qed
qed simp_all

text \<open>
  A square overflows exactly when the magnitude of the component is \<open>2 ^ 512\<close> or more.
\<close>

lemma float_pow2_overflow_iff:
  assumes "is_double x"
  shows "float_pow2 lm x = Inl OverflowError \<longleftrightarrow> (\<exists>q. x = Finite q \<and> pow2 512 \<le> \<bar>q\<bar>)"
proof (cases x)
  case (Finite q)
  have one: "\<not> pow2 512 \<le> (1::rat)" by (simp add: pow2_def)
  show ?thesis
  proof (cases "q = 0 \<or> \<bar>q\<bar> = 1")
    case True
    then show ?thesis using Finite one by auto
  next
    case False
    then have e: "float_pow2 lm x = Inl OverflowError \<longleftrightarrow> libm_pow2 lm \<bar>q\<bar> = PInf"
      using Finite by (cases "libm_pow2 lm \<bar>q\<bar>") simp_all
    show ?thesis
    proof (cases "pow2 512 \<le> \<bar>q\<bar>")
      case True
      then show ?thesis using e Finite by (simp add: libm_pow2_overflow)
    next
      case small: False
      then have "\<bar>q\<bar> < pow2 512" by simp
      with assms Finite have "\<bar>q\<bar> \<le> (2 ^ 53 - 1) * pow2 459" by (intro double_below) simp
      moreover have "0 < \<bar>q\<bar>" using False by simp
      ultimately have "libm_pow2 lm \<bar>q\<bar> \<noteq> PInf" by (intro libm_pow2_finite)
      then show ?thesis using e Finite small by simp
    qed
  qed
qed simp_all

lemma float_add_square_range:
  assumes "square_range a" and "square_range b"
  shows "square_range (float_add a b)"
proof (cases a; cases b)
  fix qa qb assume ab: "a = Finite qa" "b = Finite qb"
  then have "0 \<le> qa" "0 \<le> qb" using assms by (simp_all add: square_range_nonneg)
  then have "square_range (round64 False (qa + qb))" by (intro round64_square_range) simp
  then show ?thesis using ab \<open>0 \<le> qa\<close> \<open>0 \<le> qb\<close>
    by (simp add: float_add_def rnd64_def abs_of_nonneg)
qed (use assms in \<open>simp_all add: float_add_def\<close>)

lemma math_sqrt_square_range:
  assumes "square_range a"
  shows "\<exists>r. math_sqrt a = Inr r"
proof (cases a)
  case (Finite q)
  then have "\<not> q < 0" using assms square_range_nonneg [of q] by (simp add: not_less)
  then show ?thesis using Finite by simp
qed (use assms in simp_all)

subsection \<open>The error of a rounding\<close>

text \<open>
  In the normal range, from \<open>2 ^ -1022\<close> on and as long as the result is finite, a rounding
  that moves the scaled significand by \<open>d\<close> at most changes a magnitude \<open>a\<close> by
  \<open>a * d / 2 ^ 52\<close> at most.
\<close>

lemma round64_to_error:
  assumes "pow2 (- 1022) \<le> a" and "\<And>y. \<bar>of_int (rnd y) - y\<bar> \<le> d"
    and "a + a * (d / 2 ^ 52) < pow2 1024"
  shows "\<exists>v. round64_to rnd a = Finite v \<and> \<bar>v - a\<bar> \<le> a * (d / 2 ^ 52)"
proof -
  have apos: "0 < a" using pow2_pos [of "- 1022"] assms(1) by (rule less_le_trans)
  define p where "p = ilog2 a - 52"
  define m where "m = rnd (a / pow2 p)"
  define v where "v = of_int m * pow2 p"
  have "pow2 (- 1022) < pow2 (ilog2 a + 1)"
    using assms(1) ilog2_bounds(2) [OF apos] by (rule le_less_trans)
  have "- 1022 \<le> ilog2 a"
  proof (rule ccontr)
    assume "\<not> - 1022 \<le> ilog2 a"
    then have "ilog2 a + 1 \<le> - 1022" by simp
    then have "pow2 (ilog2 a + 1) \<le> pow2 (- 1022)" by (rule pow2_mono)
    then show False using \<open>pow2 (- 1022) < pow2 (ilog2 a + 1)\<close> by simp
  qed
  then have pm: "max (ilog2 a - 52) (- 1074) = p" by (simp add: p_def)
  have d0: "0 \<le> d" using assms(2) [of 0] by simp
  have "pow2 (ilog2 a) = pow2 p * pow2 52" by (simp add: p_def pow2_add [symmetric])
  then have "pow2 p * 2 ^ 52 \<le> a" using ilog2_bounds(1) [OF apos] by (simp add: pow2_def)
  then have pa: "pow2 p \<le> a / 2 ^ 52" by (simp add: le_divide_eq)
  have "v - a = (of_int m - a / pow2 p) * pow2 p" by (simp add: v_def algebra_simps)
  then have "\<bar>v - a\<bar> = \<bar>of_int m - a / pow2 p\<bar> * pow2 p" by (simp add: abs_mult)
  also have "\<dots> \<le> d * pow2 p" unfolding m_def using assms(2) by (intro mult_right_mono) simp_all
  also have "\<dots> \<le> d * (a / 2 ^ 52)" using pa d0 by (rule mult_left_mono)
  finally have e: "\<bar>v - a\<bar> \<le> a * (d / 2 ^ 52)" by (simp add: mult.commute)
  then have "v \<le> a + a * (d / 2 ^ 52)" by linarith
  then have "v < pow2 1024" using assms(3) by (rule le_less_trans)
  then have "round64_to rnd a = Finite v"
    by (simp add: round64_to_def Let_def pm m_def [symmetric] v_def [symmetric] not_le [symmetric])
  then show ?thesis using e by simp
qed

lemma choice_error: "\<bar>of_int ((if c then ceiling else floor) y) - y\<bar> \<le> (1::rat)"
  by (cases c) (simp_all, linarith+)

lemma round_half_even_error: "\<bar>of_int (round_half_even y) - y\<bar> \<le> (1 / 2 :: rat)"
proof -
  have "of_int \<lfloor>y\<rfloor> \<le> y" "y < of_int \<lfloor>y\<rfloor> + 1" by linarith+
  then show ?thesis by (auto simp: round_half_even_def Let_def abs_le_iff)
qed

lemma round64_to_nearest:
  assumes "a \<noteq> 0"
  shows "round64 False a = round64_to round_half_even a"
  using assms by (auto simp: round64_def round64_to_def Let_def)

lemma relative_error:
  fixes t a e :: rat
  assumes "\<bar>t - a\<bar> \<le> a * e"
  shows "(1 - e) * a \<le> t \<and> t \<le> (1 + e) * a"
  using assms by (simp add: abs_le_iff algebra_simps)

lemma within_double:
  fixes x e :: rat
  assumes "0 \<le> x" and "e \<le> 1"
  shows "x + x * e \<le> 2 * x"
proof -
  have "x * e \<le> x * 1" using assms(2,1) by (rule mult_left_mono)
  then show ?thesis by simp
qed

text \<open>The square the library returns is within \<open>2 ^ -52\<close> of the exact square.\<close>

lemma libm_pow2_error:
  assumes "pow2 (- 510) \<le> a" and "a \<le> pow2 510"
  shows "\<exists>s. libm_pow2 lm a = Finite s \<and>
            (1 - 1 / 2 ^ 52) * (a * a) \<le> s \<and> s \<le> (1 + 1 / 2 ^ 52) * (a * a)"
proof -
  have a0: "0 \<le> a" using pow2_nonneg assms(1) by (rule order_trans)
  have "pow2 (- 510) * pow2 (- 510) \<le> a * a" using assms(1) a0 by (intro mult_mono) simp_all
  then have lo: "pow2 (- 1020) \<le> a * a" by (simp add: pow2_add [symmetric])
  have "pow2 (- 1022) \<le> pow2 (- 1020)" by (intro pow2_mono) simp
  from this lo have lo': "pow2 (- 1022) \<le> a * a" by (rule order_trans)
  have "a * a \<le> pow2 510 * pow2 510" using assms(2) a0 by (intro mult_mono) simp_all
  then have hi: "a * a \<le> pow2 1020" by (simp add: pow2_add [symmetric])
  have "a * a + a * a * (1 / 2 ^ 52) \<le> 2 * (a * a)"
    using a0 by (intro within_double) simp_all
  also have "\<dots> \<le> 2 * pow2 1020" using hi by simp
  also have "\<dots> = pow2 1021" by (simp add: pow2_def)
  also have "\<dots> < pow2 1024" by (intro pow2_strict_mono) simp
  finally have ov: "a * a + a * a * (1 / 2 ^ 52) < pow2 1024" .
  from round64_to_error [of "a * a" "if lm a then ceiling else floor" 1, OF lo' choice_error ov]
  obtain s where s: "libm_pow2 lm a = Finite s" and e: "\<bar>s - a * a\<bar> \<le> a * a * (1 / 2 ^ 52)"
    unfolding libm_pow2_def by blast
  from relative_error [OF e] s show ?thesis by blast
qed

text \<open>A sum is within \<open>2 ^ -53\<close> of the exact sum.\<close>

lemma round64_error:
  assumes "a = 0 \<or> pow2 (- 1022) \<le> a" and "a \<le> pow2 1023"
  shows "\<exists>t. round64 False a = Finite t \<and>
            (1 - 1 / 2 ^ 53) * a \<le> t \<and> t \<le> (1 + 1 / 2 ^ 53) * a"
proof (cases "a = 0")
  case True
  then show ?thesis by (simp add: round64_def)
next
  case False
  then have lo: "pow2 (- 1022) \<le> a" using assms(1) by simp
  have a0: "0 < a" using pow2_pos [of "- 1022"] lo by (rule less_le_trans)
  have h: "(1 / 2 / 2 ^ 52 :: rat) = 1 / 2 ^ 53" by simp
  have "a * (1 / 2 ^ 53) < a * 1" using a0 by (intro mult_strict_left_mono) simp_all
  then have "a + a * (1 / 2 ^ 53) < 2 * a" by simp
  also have "\<dots> \<le> 2 * pow2 1023" using assms(2) by simp
  also have "\<dots> = pow2 1024" by (simp add: pow2_def)
  finally have ov: "a + a * (1 / 2 / 2 ^ 52) < pow2 1024" unfolding h .
  from round64_to_error [of a round_half_even "1 / 2", OF lo round_half_even_error ov]
  obtain t where t: "round64_to round_half_even a = Finite t"
    and e: "\<bar>t - a\<bar> \<le> a * (1 / 2 ^ 53)"
    unfolding h by blast
  from relative_error [OF e] t False show ?thesis
    unfolding round64_to_nearest [OF False] by blast
qed

text \<open>
  The square root is within \<open>2 ^ -53\<close> of the exact one: the square of the result, made
  smaller or greater by that much, encloses the argument.
\<close>

lemma sqrt64_error:
  assumes "0 < q"
  shows "((1 - 1 / 2 ^ 53) * sqrt64 q)\<^sup>2 \<le> q \<and> q \<le> ((1 + 1 / 2 ^ 53) * sqrt64 q)\<^sup>2"
proof -
  define p where "p = ilog2 q div 2 - 52"
  define x where "x = q / pow2 (2 * p)"
  define s where "s = isqrt \<lfloor>x\<rfloor>"
  define h where "h = (of_int s + 1 / 2) * (of_int s + 1 / 2 :: rat)"
  define m where "m = (if x < h then s else if h < x then s + 1 else if even s then s else s + 1)"
  define S :: rat where "S = of_int s"
  define M :: rat where "M = of_int m"
  define u :: rat where "u = 1 / 2 ^ 53"
  have r: "sqrt64 q = M * pow2 p"
    by (simp add: sqrt64_def Let_def p_def x_def s_def h_def m_def M_def)
  have "2 * p + 104 \<le> ilog2 q" unfolding p_def by presburger
  then have "pow2 (2 * p + 104) \<le> pow2 (ilog2 q)" by (rule pow2_mono)
  from this ilog2_bounds(1) [OF assms] have "pow2 (2 * p + 104) \<le> q" by (rule order_trans)
  then have "pow2 104 * pow2 (2 * p) \<le> q" by (simp add: pow2_add mult.commute)
  then have "pow2 104 \<le> x" unfolding x_def by (simp add: le_divide_eq)
  then have "of_int (2 ^ 104) \<le> x" by (simp add: pow2_def)
  then have f104: "2 ^ 104 \<le> \<lfloor>x\<rfloor>" by (simp only: le_floor_iff)
  then have f0: "0 \<le> \<lfloor>x\<rfloor>" by simp
  from isqrt_bounds [OF f0] have s0: "0 \<le> s" and lo: "s * s \<le> \<lfloor>x\<rfloor>"
    and hi: "\<lfloor>x\<rfloor> < (s + 1) * (s + 1)"
    by (simp_all add: s_def)
  have s52: "2 ^ 52 \<le> s"
  proof (rule ccontr)
    assume "\<not> 2 ^ 52 \<le> s"
    then have "s + 1 \<le> 2 ^ 52" by simp
    then have "(s + 1) * (s + 1) \<le> 2 ^ 52 * 2 ^ 52" using s0 by (intro mult_mono) simp_all
    then have "(s + 1) * (s + 1) \<le> 2 ^ 104" by simp
    with hi have "\<lfloor>x\<rfloor> < 2 ^ 104" by (rule less_le_trans)
    then have "\<not> 2 ^ 104 \<le> \<lfloor>x\<rfloor>" by (simp only: not_le)
    then show False using f104 by (rule notE)
  qed
  have "(of_int (s * s) :: rat) \<le> of_int \<lfloor>x\<rfloor>" using lo by (simp only: of_int_le_iff)
  then have "S * S \<le> of_int \<lfloor>x\<rfloor>" by (simp add: S_def)
  moreover have "of_int \<lfloor>x\<rfloor> \<le> x" by (rule of_int_floor_le)
  ultimately have lo': "S * S \<le> x" by (rule order_trans)
  have "\<lfloor>x\<rfloor> + 1 \<le> (s + 1) * (s + 1)" using hi by simp
  then have "(of_int (\<lfloor>x\<rfloor> + 1) :: rat) \<le> of_int ((s + 1) * (s + 1))" by (simp only: of_int_le_iff)
  then have "of_int \<lfloor>x\<rfloor> + 1 \<le> (S + 1) * (S + 1)" by (simp add: S_def)
  moreover have "x < of_int \<lfloor>x\<rfloor> + 1" by linarith
  ultimately have hi': "x < (S + 1) * (S + 1)" by (rule less_le_trans [rotated])
  have "(of_int (2 ^ 52) :: rat) \<le> of_int s" using s52 by (simp only: of_int_le_iff)
  then have S52: "2 ^ 52 \<le> S" by (simp add: S_def)
  then have S1: "1 \<le> S" by simp
  have h: "h = (S + 1 / 2) * (S + 1 / 2)" by (simp add: h_def S_def)
  have a1: "(S - 1 / 2) * (S - 1 / 2) \<le> S * S" using S1 by (simp add: algebra_simps)
  have a2: "(S + 1) * (S + 1) \<le> (S + 1 + 1 / 2) * (S + 1 + 1 / 2)"
    using S1 by (simp add: algebra_simps)
  have enc: "(M - 1 / 2) * (M - 1 / 2) \<le> x \<and> x \<le> (M + 1 / 2) * (M + 1 / 2)"
  proof (cases "m = s")
    case True
    then have MS: "M = S" by (simp add: M_def S_def)
    from True have "\<not> h < x" by (auto simp: m_def split: if_splits)
    then have "x \<le> (S + 1 / 2) * (S + 1 / 2)" unfolding h by (simp only: not_less)
    moreover from a1 lo' have "(S - 1 / 2) * (S - 1 / 2) \<le> x" by (rule order_trans)
    ultimately show ?thesis unfolding MS by (rule conjI [rotated])
  next
    case False
    then have ms: "m = s + 1" and "\<not> x < h" by (auto simp: m_def split: if_splits)
    then have e1: "M - 1 / 2 = S + 1 / 2" and e2: "M + 1 / 2 = S + 1 + 1 / 2"
      by (simp_all add: M_def S_def)
    from \<open>\<not> x < h\<close> have "(S + 1 / 2) * (S + 1 / 2) \<le> x" unfolding h by (simp only: not_less)
    moreover have "x \<le> (S + 1 + 1 / 2) * (S + 1 + 1 / 2)"
      using hi' a2 by (intro less_imp_le) (rule less_le_trans)
    ultimately show ?thesis unfolding e1 e2 by (rule conjI)
  qed
  have "s \<le> m" by (simp add: m_def)
  then have "(of_int s :: rat) \<le> of_int m" by (simp only: of_int_le_iff)
  then have M52: "2 ^ 52 \<le> M" using S52 by (simp add: M_def S_def)
  then have "1 / 2 \<le> M * u"
  proof -
    have "2 ^ 52 * u \<le> M * u" using M52 by (intro mult_right_mono) (simp_all add: u_def)
    then show ?thesis by (simp add: u_def)
  qed
  then have b1: "(1 - u) * M \<le> M - 1 / 2" and b2: "M + 1 / 2 \<le> (1 + u) * M"
    by (simp_all add: algebra_simps)
  have u1: "0 \<le> 1 - u" by (simp add: u_def)
  have M0: "0 \<le> M" using M52 by simp
  have n1: "0 \<le> (1 - u) * M" using u1 M0 by simp
  have n2: "0 \<le> M + 1 / 2" using M0 by simp
  have "((1 - u) * M) * ((1 - u) * M) \<le> (M - 1 / 2) * (M - 1 / 2)"
    using b1 n1 by (intro mult_mono) simp_all
  with enc have c1: "((1 - u) * M) * ((1 - u) * M) \<le> x" by simp
  have "(M + 1 / 2) * (M + 1 / 2) \<le> ((1 + u) * M) * ((1 + u) * M)"
    using b2 n2 by (intro mult_mono) simp_all
  with enc have c2: "x \<le> ((1 + u) * M) * ((1 + u) * M)" by simp
  have q: "q = x * (pow2 p * pow2 p)" by (simp add: x_def pow2_add [symmetric])
  have "((1 - u) * M) * ((1 - u) * M) * (pow2 p * pow2 p) \<le> x * (pow2 p * pow2 p)"
    using c1 by (intro mult_right_mono) simp_all
  then have d1: "((1 - u) * (M * pow2 p))\<^sup>2 \<le> q"
    by (simp add: q power2_eq_square mult_ac)
  have "x * (pow2 p * pow2 p) \<le> ((1 + u) * M) * ((1 + u) * M) * (pow2 p * pow2 p)"
    using c2 by (intro mult_right_mono) simp_all
  then have d2: "q \<le> ((1 + u) * (M * pow2 p))\<^sup>2"
    by (simp add: q power2_eq_square mult_ac)
  from d1 d2 show ?thesis unfolding r u_def by simp
qed

lemma normal_square:
  assumes "normal_component q"
  shows "(q * q = 0 \<or> pow2 (- 1020) \<le> q * q) \<and> q * q \<le> pow2 1020"
proof (cases "q = 0")
  case True
  then show ?thesis by simp
next
  case False
  then have lo: "pow2 (- 510) \<le> \<bar>q\<bar>" and hi: "\<bar>q\<bar> \<le> pow2 510"
    using assms by (simp_all add: normal_component_def)
  have "pow2 (- 510) * pow2 (- 510) \<le> \<bar>q\<bar> * \<bar>q\<bar>" using lo by (intro mult_mono) simp_all
  then have "pow2 (- 1020) \<le> q * q" by (simp add: pow2_add [symmetric])
  moreover have "\<bar>q\<bar> * \<bar>q\<bar> \<le> pow2 510 * pow2 510" using hi by (intro mult_mono) simp_all
  then have "q * q \<le> pow2 1020" by (simp add: pow2_add [symmetric])
  ultimately show ?thesis by simp
qed

text \<open>The square of a component in the normal range, as \<^verbatim>\<open>**\<close> returns it.\<close>

lemma float_pow2_error:
  assumes "normal_component q"
  shows "\<exists>s. float_pow2 lm (Finite q) = Inr (Finite s) \<and>
            (1 - 1 / 2 ^ 52) * (q * q) \<le> s \<and> s \<le> (1 + 1 / 2 ^ 52) * (q * q)"
proof (cases "q = 0 \<or> \<bar>q\<bar> = 1")
  case True
  then show ?thesis
  proof
    assume "q = 0"
    then show ?thesis by simp
  next
    assume q: "\<bar>q\<bar> = 1"
    then have "\<bar>q\<bar> * \<bar>q\<bar> = 1" by simp
    then have "q * q = 1" by simp
    then show ?thesis using q by auto
  qed
next
  case False
  then have "pow2 (- 510) \<le> \<bar>q\<bar>" and "\<bar>q\<bar> \<le> pow2 510"
    using assms by (simp_all add: normal_component_def)
  from libm_pow2_error [OF this, of lm] obtain s where s: "libm_pow2 lm \<bar>q\<bar> = Finite s"
    and b: "(1 - 1 / 2 ^ 52) * (\<bar>q\<bar> * \<bar>q\<bar>) \<le> s" "s \<le> (1 + 1 / 2 ^ 52) * (\<bar>q\<bar> * \<bar>q\<bar>)"
    by blast
  have q: "\<bar>q\<bar> * \<bar>q\<bar> = q * q" by simp
  have "float_pow2 lm (Finite q) = Inr (Finite s)" using False s by simp
  then show ?thesis using b unfolding q by blast
qed

text \<open>
  From a result whose square is within \<open>(1 - k)\<^sup>2\<close> and \<open>(1 + k)\<^sup>2\<close> of a number to the
  distance of the result from the square root of that number.
\<close>

lemma sqrt_enclosed:
  fixes r s k :: rat
  assumes "0 \<le> r" and "k \<le> 1"
    and "(1 - k)\<^sup>2 * s \<le> r\<^sup>2" and "r\<^sup>2 \<le> (1 + k)\<^sup>2 * s" and "0 \<le> s" and "0 \<le> k"
  shows "\<bar>real_of_rat r - sqrt (real_of_rat s)\<bar> \<le> real_of_rat k * sqrt (real_of_rat s)"
proof -
  define R where "R = real_of_rat r"
  define T where "T = sqrt (real_of_rat s)"
  define K where "K = real_of_rat k"
  have R0: "0 \<le> R" using assms(1) by (simp add: R_def)
  have T0: "0 \<le> T" using assms(5) by (simp add: T_def)
  have K0: "0 \<le> K" "K \<le> 1" using assms(2,6) by (simp_all add: K_def)
  have T2: "T\<^sup>2 = real_of_rat s" using assms(5) by (simp add: T_def)
  have "real_of_rat ((1 - k)\<^sup>2 * s) \<le> real_of_rat (r\<^sup>2)" using assms(3) by (simp only: of_rat_less_eq)
  then have "(1 - K)\<^sup>2 * T\<^sup>2 \<le> R\<^sup>2"
    by (simp add: of_rat_mult of_rat_power of_rat_diff T2 K_def R_def)
  then have "((1 - K) * T)\<^sup>2 \<le> R\<^sup>2" by (simp add: power_mult_distrib)
  then have l: "(1 - K) * T \<le> R" using R0 by (rule power2_le_imp_le)
  have "real_of_rat (r\<^sup>2) \<le> real_of_rat ((1 + k)\<^sup>2 * s)" using assms(4) by (simp only: of_rat_less_eq)
  then have "R\<^sup>2 \<le> (1 + K)\<^sup>2 * T\<^sup>2"
    by (simp add: of_rat_mult of_rat_power of_rat_add T2 K_def R_def)
  then have "R\<^sup>2 \<le> ((1 + K) * T)\<^sup>2" by (simp add: power_mult_distrib)
  moreover have "0 \<le> (1 + K) * T" using K0 T0 by simp
  ultimately have u: "R \<le> (1 + K) * T" by (rule power2_le_imp_le)
  from l u have "\<bar>R - T\<bar> \<le> K * T" by (simp add: abs_le_iff algebra_simps)
  then show ?thesis by (simp add: R_def T_def K_def)
qed

lemma sqrt64_pos:
  assumes "0 < q"
  shows "0 < sqrt64 q"
proof -
  define p where "p = ilog2 q div 2 - 52"
  define x where "x = q / pow2 (2 * p)"
  define s where "s = isqrt \<lfloor>x\<rfloor>"
  define h where "h = (of_int s + 1 / 2) * (of_int s + 1 / 2 :: rat)"
  define m where "m = (if x < h then s else if h < x then s + 1 else if even s then s else s + 1)"
  have "2 * p \<le> ilog2 q" unfolding p_def by presburger
  then have "pow2 (2 * p) \<le> pow2 (ilog2 q)" by (rule pow2_mono)
  also have "\<dots> \<le> q" using ilog2_bounds(1) [OF assms] .
  finally have "1 \<le> x" unfolding x_def by (simp add: le_divide_eq)
  then have f1: "1 \<le> \<lfloor>x\<rfloor>" by (simp add: le_floor_iff)
  then have f0: "0 \<le> \<lfloor>x\<rfloor>" by simp
  have s1: "1 \<le> s"
  proof (rule ccontr)
    assume "\<not> 1 \<le> s"
    then have "s = 0" using isqrt_bounds [OF f0] by (simp add: s_def)
    then show False using isqrt_bounds [OF f0] f1 by (simp add: s_def)
  qed
  have "s \<le> m" by (simp add: m_def)
  then have "1 \<le> m" using s1 by simp
  then have "(0::rat) < of_int m * pow2 p" by simp
  moreover have "sqrt64 q = of_int m * pow2 p"
    by (simp add: sqrt64_def Let_def p_def x_def s_def h_def m_def)
  ultimately show ?thesis by simp
qed

text \<open>
  A value within \<open>e \<le> 1 / 2\<close> of a number that is zero or at least \<open>2 ^ (k + 1)\<close> is
  zero or at least \<open>2 ^ k\<close>, and at most one and a half times the number.
\<close>

lemma rounded_bounds:
  fixes A t e :: rat
  assumes "0 \<le> e" and "e \<le> 1 / 2" and "A = 0 \<or> pow2 (k + 1) \<le> A"
    and "(1 - e) * A \<le> t" and "t \<le> (1 + e) * A"
  shows "0 \<le> t \<and> (t = 0 \<or> pow2 k \<le> t) \<and> t \<le> 3 / 2 * A"
proof (cases "A = 0")
  case True
  then show ?thesis using assms(4,5) by simp
next
  case False
  then have lo: "pow2 (k + 1) \<le> A" using assms(3) by simp
  have A0: "0 \<le> A" using pow2_nonneg lo by (rule order_trans)
  have "1 / 2 * A \<le> (1 - e) * A" using assms(2) A0 by (intro mult_right_mono) simp_all
  from this assms(4) have h: "1 / 2 * A \<le> t" by (rule order_trans)
  have "pow2 1 = 2" by (simp add: pow2_def)
  then have "pow2 (k + 1) = 2 * pow2 k" by (simp add: pow2_add)
  then have "pow2 k \<le> 1 / 2 * A" using lo by simp
  from this h have t: "pow2 k \<le> t" by (rule order_trans)
  have "(1 + e) * A \<le> 3 / 2 * A" using assms(2) A0 by (intro mult_right_mono) simp_all
  from assms(5) this have u: "t \<le> 3 / 2 * A" by (rule order_trans)
  have "0 \<le> t" using pow2_nonneg t by (rule order_trans)
  then show ?thesis using t u by simp
qed

lemma float_add_error:
  assumes "0 \<le> x" and "0 \<le> y" and "x + y = 0 \<or> pow2 (- 1022) \<le> x + y"
    and "x + y \<le> pow2 1023"
  shows "\<exists>t. float_add (Finite x) (Finite y) = Finite t \<and>
            (1 - 1 / 2 ^ 53) * (x + y) \<le> t \<and> t \<le> (1 + 1 / 2 ^ 53) * (x + y)"
proof -
  have "float_add (Finite x) (Finite y) = round64 False (x + y)"
    using assms(1,2) by (simp add: float_add_def rnd64_def not_less abs_of_nonneg)
  then show ?thesis using round64_error [OF assms(3,4)] by simp
qed

text \<open>
  The speed of components in the normal range: three squares within \<open>2 ^ -52\<close>, two sums
  and a square root within \<open>2 ^ -53\<close> each.
\<close>

lemma calculate_speed_error:
  assumes "normal_component a" and "normal_component b" and "normal_component c"
  shows "\<exists>r. calculate_speed lm (Finite a) (Finite b) (Finite c) = Inr (Finite r) \<and> 0 \<le> r \<and>
            (1 - 1 / 2 ^ 51)\<^sup>2 * (a * a + b * b + c * c) \<le> r\<^sup>2 \<and>
            r\<^sup>2 \<le> (1 + 1 / 2 ^ 51)\<^sup>2 * (a * a + b * b + c * c)"
proof -
  define X1 X2 X3 where "X1 = a * a" and "X2 = b * b" and "X3 = c * c"
  define P where "P = pow2 1020"
  define c2m c2p c3m c3p :: rat where "c2m = 1 - 1 / 2 ^ 52" and "c2p = 1 + 1 / 2 ^ 52"
    and "c3m = 1 - 1 / 2 ^ 53" and "c3p = 1 + 1 / 2 ^ 53"
  define km kp :: rat where "km = 1 - 1 / 2 ^ 51" and "kp = 1 + 1 / 2 ^ 51"
  have c: "0 \<le> c2m" "0 \<le> c2p" "0 < c3m" "c3m \<le> 1" "1 \<le> c3p" "0 < c3p"
    by (simp_all add: c2m_def c2p_def c3m_def c3p_def)
  have e: "(0::rat) \<le> 1 / 2 ^ 52" "(1 / 2 ^ 52 :: rat) \<le> 1 / 2"
    "(0::rat) \<le> 1 / 2 ^ 53" "(1 / 2 ^ 53 :: rat) \<le> 1 / 2"
    by simp_all
  have P: "0 \<le> P" "pow2 1023 = 8 * P"
    by (simp_all add: P_def pow2_def)
  have m1020: "- 1021 + 1 = (- 1020 :: int)" and m1021: "- 1022 + 1 = (- 1021 :: int)" by simp_all
  from normal_square [OF assms(1)] have X1: "X1 = 0 \<or> pow2 (- 1021 + 1) \<le> X1" "X1 \<le> P"
    by (simp_all add: X1_def P_def)
  from normal_square [OF assms(2)] have X2: "X2 = 0 \<or> pow2 (- 1021 + 1) \<le> X2" "X2 \<le> P"
    by (simp_all add: X2_def P_def)
  from normal_square [OF assms(3)] have X3: "X3 = 0 \<or> pow2 (- 1021 + 1) \<le> X3" "X3 \<le> P"
    by (simp_all add: X3_def P_def)
  have X0: "0 \<le> X1" "0 \<le> X2" "0 \<le> X3" by (simp_all add: X1_def X2_def X3_def)
  from float_pow2_error [OF assms(1), of lm] obtain s1
    where p1: "float_pow2 lm (Finite a) = Inr (Finite s1)"
      and l1: "(1 - 1 / 2 ^ 52) * X1 \<le> s1" and u1: "s1 \<le> (1 + 1 / 2 ^ 52) * X1"
    unfolding X1_def by blast
  from float_pow2_error [OF assms(2), of lm] obtain s2
    where p2: "float_pow2 lm (Finite b) = Inr (Finite s2)"
      and l2: "(1 - 1 / 2 ^ 52) * X2 \<le> s2" and u2: "s2 \<le> (1 + 1 / 2 ^ 52) * X2"
    unfolding X2_def by blast
  from float_pow2_error [OF assms(3), of lm] obtain s3
    where p3: "float_pow2 lm (Finite c) = Inr (Finite s3)"
      and l3: "(1 - 1 / 2 ^ 52) * X3 \<le> s3" and u3: "s3 \<le> (1 + 1 / 2 ^ 52) * X3"
    unfolding X3_def by blast
  from rounded_bounds [OF e(1,2) X1(1) l1 u1]
  have b1: "0 \<le> s1" "s1 = 0 \<or> pow2 (- 1021) \<le> s1" "s1 \<le> 3 / 2 * X1" by simp_all
  from rounded_bounds [OF e(1,2) X2(1) l2 u2]
  have b2: "0 \<le> s2" "s2 = 0 \<or> pow2 (- 1021) \<le> s2" "s2 \<le> 3 / 2 * X2" by simp_all
  from rounded_bounds [OF e(1,2) X3(1) l3 u3]
  have b3: "0 \<le> s3" "s3 = 0 \<or> pow2 (- 1021) \<le> s3" "s3 \<le> 3 / 2 * X3" by simp_all
  have q1: "pow2 (- 1022) \<le> pow2 (- 1021)" by (intro pow2_mono) simp
  define A1 where "A1 = s1 + s2"
  have A1lo: "A1 = 0 \<or> pow2 (- 1022 + 1) \<le> A1"
    using b1 b2 unfolding A1_def m1021 by auto
  have A1hi: "A1 \<le> 3 * P" using b1(3) b2(3) X1(2) X2(2) by (simp add: A1_def)
  have "A1 = 0 \<or> pow2 (- 1022) \<le> A1" using A1lo q1 unfolding m1021 by auto
  moreover have "A1 \<le> pow2 1023" using A1hi P by simp
  ultimately obtain t1 where f1: "float_add (Finite s1) (Finite s2) = Finite t1"
    and lt1: "(1 - 1 / 2 ^ 53) * A1 \<le> t1" and ut1: "t1 \<le> (1 + 1 / 2 ^ 53) * A1"
    using float_add_error [OF b1(1) b2(1)] unfolding A1_def by blast
  from rounded_bounds [OF e(3,4) A1lo lt1 ut1]
  have bt1: "0 \<le> t1" "t1 = 0 \<or> pow2 (- 1022) \<le> t1" "t1 \<le> 3 / 2 * A1" by simp_all
  define A2 where "A2 = t1 + s3"
  have A2lo: "A2 = 0 \<or> pow2 (- 1022) \<le> A2"
    using bt1 b3 q1 unfolding A2_def by auto
  have A2hi: "A2 \<le> pow2 1023" using bt1(3) A1hi b3(3) X3(2) P by (simp add: A2_def)
  obtain t2 where f2: "float_add (Finite t1) (Finite s3) = Finite t2"
    and lt2: "(1 - 1 / 2 ^ 53) * A2 \<le> t2" and ut2: "t2 \<le> (1 + 1 / 2 ^ 53) * A2"
    using float_add_error [OF bt1(1) b3(1)] A2lo A2hi unfolding A2_def by blast
  have A20: "0 \<le> A2" using bt1(1) b3(1) by (simp add: A2_def)
  define S where "S = X1 + X2 + X3"
  have S0: "0 \<le> S" using X0 by (simp add: S_def)
  have "c2m * (X1 + X2) \<le> A1" using l1 l2 by (simp add: A1_def c2m_def algebra_simps)
  then have "c3m * (c2m * (X1 + X2)) \<le> c3m * A1" using c(3) by (intro mult_left_mono) simp_all
  moreover have "c3m * A1 \<le> t1" using lt1 by (simp add: c3m_def)
  ultimately have g1: "c3m * (c2m * (X1 + X2)) \<le> t1" by (rule order_trans)
  have "c3m * (c2m * X3) \<le> 1 * (c2m * X3)" using c(1,4) X0(3) by (intro mult_right_mono) simp_all
  moreover have "c2m * X3 \<le> s3" using l3 by (simp add: c2m_def)
  ultimately have g2: "c3m * (c2m * X3) \<le> s3" by simp
  have "c3m * (c2m * S) = c3m * (c2m * (X1 + X2)) + c3m * (c2m * X3)"
    by (simp add: S_def algebra_simps)
  then have "c3m * (c2m * S) \<le> A2" using g1 g2 by (simp add: A2_def)
  then have "c3m * (c3m * (c2m * S)) \<le> c3m * A2" using c(3) by (intro mult_left_mono) simp_all
  moreover have "c3m * A2 \<le> t2" using lt2 by (simp add: c3m_def)
  ultimately have low: "c3m * (c3m * (c2m * S)) \<le> t2" by (rule order_trans)
  have "A1 \<le> c2p * (X1 + X2)" using u1 u2 by (simp add: A1_def c2p_def algebra_simps)
  then have "c3p * A1 \<le> c3p * (c2p * (X1 + X2))" using c(6) by (intro mult_left_mono) simp_all
  moreover have "t1 \<le> c3p * A1" using ut1 by (simp add: c3p_def)
  ultimately have h1: "t1 \<le> c3p * (c2p * (X1 + X2))" by (rule order_trans [rotated])
  have "1 * (c2p * X3) \<le> c3p * (c2p * X3)" using c(2,5) X0(3) by (intro mult_right_mono) simp_all
  moreover have "s3 \<le> c2p * X3" using u3 by (simp add: c2p_def)
  ultimately have h2: "s3 \<le> c3p * (c2p * X3)" by simp
  have "c3p * (c2p * S) = c3p * (c2p * (X1 + X2)) + c3p * (c2p * X3)"
    by (simp add: S_def algebra_simps)
  then have "A2 \<le> c3p * (c2p * S)" using h1 h2 by (simp add: A2_def)
  then have "c3p * A2 \<le> c3p * (c3p * (c2p * S))" using c(6) by (intro mult_left_mono) simp_all
  moreover have "t2 \<le> c3p * A2" using ut2 by (simp add: c3p_def)
  ultimately have upp: "t2 \<le> c3p * (c3p * (c2p * S))" by (rule order_trans [rotated])
  have t20: "0 \<le> t2"
  proof -
    have "0 \<le> c3m * A2" using c(3) A20 by simp
    moreover have "c3m * A2 \<le> t2" using lt2 by (simp add: c3m_def)
    ultimately show ?thesis by (rule order_trans)
  qed
  have cs: "calculate_speed lm (Finite a) (Finite b) (Finite c) = math_sqrt (Finite t2)"
    unfolding calculate_speed_def p1 p2 p3 by (simp add: f1 f2)
  have n1: "c3p * c3p * c2p \<le> kp\<^sup>2 * (c3m * c3m)"
    by (simp add: c2p_def c3m_def c3p_def kp_def power2_eq_square)
  have n2: "km\<^sup>2 * (c3p * c3p) \<le> c3m * c3m * c2m"
    by (simp add: c2m_def c3m_def c3p_def km_def power2_eq_square)
  show ?thesis
  proof (cases "t2 = 0")
    case True
    define L where "L = c3m * (c3m * c2m)"
    have L: "0 < L" by (simp add: L_def c2m_def c3m_def)
    have eq: "L * S = c3m * (c3m * (c2m * S))" unfolding L_def by (simp only: mult.assoc)
    from low True have "c3m * (c3m * (c2m * S)) \<le> 0" by simp
    then have "L * S \<le> L * 0" unfolding eq by simp
    then have "S \<le> 0" using L by (simp only: mult_le_cancel_left_pos)
    then have "S = 0" using S0 by simp
    then show ?thesis using True cs by (simp add: S_def X1_def X2_def X3_def)
  next
    case False
    then have t2: "0 < t2" using t20 by simp
    define r where "r = sqrt64 t2"
    have r0: "0 < r" unfolding r_def using t2 by (rule sqrt64_pos)
    have cr: "calculate_speed lm (Finite a) (Finite b) (Finite c) = Inr (Finite r)"
      using t2 cs by (simp add: r_def)
    from sqrt64_error [OF t2] have sl: "(c3m * r)\<^sup>2 \<le> t2" and su: "t2 \<le> (c3p * r)\<^sup>2"
      by (simp_all add: c3m_def c3p_def r_def)
    have "c3m * c3m * r\<^sup>2 \<le> c3p * c3p * c2p * S"
      using order_trans [OF sl upp] by (simp add: power2_eq_square mult_ac)
    also have "\<dots> \<le> kp\<^sup>2 * (c3m * c3m) * S" using n1 S0 by (rule mult_right_mono)
    finally have "c3m * c3m * r\<^sup>2 \<le> c3m * c3m * (kp\<^sup>2 * S)" by (simp add: mult_ac)
    moreover have "0 < c3m * c3m" using c(3) by simp
    ultimately have up: "r\<^sup>2 \<le> kp\<^sup>2 * S" by (simp only: mult_le_cancel_left_pos)
    have "km\<^sup>2 * (c3p * c3p) * S \<le> c3m * c3m * c2m * S" using n2 S0 by (rule mult_right_mono)
    also have "\<dots> \<le> c3p * c3p * r\<^sup>2"
      using order_trans [OF low su] by (simp add: power2_eq_square mult_ac)
    finally have "c3p * c3p * (km\<^sup>2 * S) \<le> c3p * c3p * r\<^sup>2" by (simp add: mult_ac)
    moreover have "0 < c3p * c3p" using c(6) by simp
    ultimately have lo: "km\<^sup>2 * S \<le> r\<^sup>2" by (simp only: mult_le_cancel_left_pos)
    from cr r0 lo up show ?thesis
      unfolding km_def kp_def S_def X1_def X2_def X3_def by (intro exI [of _ r]) simp
  qed
qed

subsection \<open>The speed\<close>

lemma float_pow2_big:
  assumes "pow2 512 \<le> \<bar>q\<bar>"
  shows "float_pow2 lm (Finite q) = Inl OverflowError"
proof -
  have "pow2 0 < pow2 512" by (intro pow2_strict_mono) simp
  then have "1 < pow2 512" by (simp add: pow2_def)
  from this assms have "1 < \<bar>q\<bar>" by (rule less_le_trans)
  then have "q \<noteq> 0" "\<bar>q\<bar> \<noteq> 1" by auto
  moreover have "libm_pow2 lm \<bar>q\<bar> = PInf" using assms by (rule libm_pow2_overflow)
  ultimately show ?thesis by simp
qed

lemma calculate_speed_cases:
  "(calculate_speed lm vx vy vz = Inl OverflowError \<longleftrightarrow>
      float_pow2 lm vx = Inl OverflowError \<or> float_pow2 lm vy = Inl OverflowError \<or>
      float_pow2 lm vz = Inl OverflowError) \<and>
   (\<forall>e. calculate_speed lm vx vy vz = Inl e \<longrightarrow> e = OverflowError)"
proof -
  have ok: "\<exists>r. calculate_speed lm vx vy vz = Inr r"
    if "float_pow2 lm vx = Inr a" "float_pow2 lm vy = Inr b" "float_pow2 lm vz = Inr c" for a b c
  proof -
    have "square_range a" "square_range b" "square_range c"
      using that float_pow2_cases [of lm vx] float_pow2_cases [of lm vy]
        float_pow2_cases [of lm vz]
      by auto
    then have "square_range (float_add (float_add a b) c)"
      by (intro float_add_square_range)
    from math_sqrt_square_range [OF this] show ?thesis
      using that by (auto simp: calculate_speed_def)
  qed
  consider "float_pow2 lm vx = Inl OverflowError" | "float_pow2 lm vy = Inl OverflowError"
    | "float_pow2 lm vz = Inl OverflowError"
    | a b c where "float_pow2 lm vx = Inr a" "float_pow2 lm vy = Inr b"
      "float_pow2 lm vz = Inr c"
    using float_pow2_cases [of lm vx] float_pow2_cases [of lm vy] float_pow2_cases [of lm vz]
    by auto
  then show ?thesis
  proof cases
    case 1
    then show ?thesis by (simp add: calculate_speed_def)
  next
    case 2
    then show ?thesis using float_pow2_cases [of lm vx] by (auto simp: calculate_speed_def)
  next
    case 3
    then show ?thesis using float_pow2_cases [of lm vx] float_pow2_cases [of lm vy]
      by (auto simp: calculate_speed_def)
  next
    case 4
    with ok [OF 4] show ?thesis by auto
  qed
qed

text \<open>
  C5, as the code has it.  For binary64 components and every C library,
  \<^verbatim>\<open>calculate_speed\<close> raises \<^verbatim>\<open>OverflowError\<close> exactly when a finite component has a
  magnitude of \<open>2 ^ 512\<close> or more, and raises nothing else; otherwise it returns a float.
  When every component is zero or has a magnitude from \<open>2 ^ -510\<close> to \<open>2 ^ 510\<close>, that
  float is a non-negative number whose distance from the real square root of the sum of
  the three squares is at most \<open>2 ^ -51\<close> times that root.  For \<open>1.0\<close>, \<open>2.0\<close>, \<open>3.0\<close> the
  result is the float that \<^verbatim>\<open>3.7416573867739413\<close> denotes.
\<close>

theorem calculate_speed_unless_overflow:
  assumes "is_double vx" and "is_double vy" and "is_double vz"
  shows "(calculate_speed lm vx vy vz = Inl OverflowError \<longleftrightarrow>
            (\<exists>q. (vx = Finite q \<or> vy = Finite q \<or> vz = Finite q) \<and> pow2 512 \<le> \<bar>q\<bar>)) \<and>
         (\<forall>e. calculate_speed lm vx vy vz = Inl e \<longrightarrow> e = OverflowError) \<and>
         ((\<forall>q. (vx = Finite q \<or> vy = Finite q \<or> vz = Finite q) \<longrightarrow> \<bar>q\<bar> < pow2 512) \<longrightarrow>
            (\<exists>r. calculate_speed lm vx vy vz = Inr r)) \<and>
         (\<forall>a b c. vx = Finite a \<and> vy = Finite b \<and> vz = Finite c \<and>
              normal_component a \<and> normal_component b \<and> normal_component c \<longrightarrow>
            (\<exists>r. calculate_speed lm vx vy vz = Inr (Finite r) \<and> 0 \<le> r \<and>
                 \<bar>real_of_rat r - sqrt (real_of_rat (a * a + b * b + c * c))\<bar>
                   \<le> sqrt (real_of_rat (a * a + b * b + c * c)) / 2 ^ 51)) \<and>
         calculate_speed lm (Finite 1) (Finite 2) (Finite 3) = py_float ''3.7416573867739413''"
proof -
  note c = calculate_speed_cases [of lm vx vy vz]
  have o: "calculate_speed lm vx vy vz = Inl OverflowError \<longleftrightarrow>
      (\<exists>q. (vx = Finite q \<or> vy = Finite q \<or> vz = Finite q) \<and> pow2 512 \<le> \<bar>q\<bar>)"
    using c float_pow2_overflow_iff [OF assms(1), of lm] float_pow2_overflow_iff [OF assms(2), of lm]
      float_pow2_overflow_iff [OF assms(3), of lm]
    by blast
  have e: "\<forall>e. calculate_speed lm vx vy vz = Inl e \<longrightarrow> e = OverflowError"
    using c by blast
  have r: "\<exists>r. calculate_speed lm vx vy vz = Inr r"
    if "\<forall>q. (vx = Finite q \<or> vy = Finite q \<or> vz = Finite q) \<longrightarrow> \<bar>q\<bar> < pow2 512"
  proof (cases "calculate_speed lm vx vy vz")
    case (Inl x)
    with e have "calculate_speed lm vx vy vz = Inl OverflowError" by simp
    with o obtain q where "vx = Finite q \<or> vy = Finite q \<or> vz = Finite q" "pow2 512 \<le> \<bar>q\<bar>"
      by blast
    with that show ?thesis by (auto simp: not_le [symmetric])
  next
    case (Inr y)
    then show ?thesis by simp
  qed
  have n: "\<exists>r. calculate_speed lm vx vy vz = Inr (Finite r) \<and> 0 \<le> r \<and>
      \<bar>real_of_rat r - sqrt (real_of_rat (a * a + b * b + c * c))\<bar>
        \<le> sqrt (real_of_rat (a * a + b * b + c * c)) / 2 ^ 51"
    if v: "vx = Finite a" "vy = Finite b" "vz = Finite c"
      and nc: "normal_component a" "normal_component b" "normal_component c" for a b c
  proof -
    from calculate_speed_error [OF nc, of lm] obtain r
      where cr: "calculate_speed lm (Finite a) (Finite b) (Finite c) = Inr (Finite r)"
        and r0: "0 \<le> r"
        and lo: "(1 - 1 / 2 ^ 51)\<^sup>2 * (a * a + b * b + c * c) \<le> r\<^sup>2"
        and up: "r\<^sup>2 \<le> (1 + 1 / 2 ^ 51)\<^sup>2 * (a * a + b * b + c * c)"
      by blast
    have s0: "0 \<le> a * a + b * b + c * c" by simp
    have k: "(1 / 2 ^ 51 :: rat) \<le> 1" "(0 :: rat) \<le> 1 / 2 ^ 51" by simp_all
    from sqrt_enclosed [OF r0 k(1) lo up s0 k(2)]
    have "\<bar>real_of_rat r - sqrt (real_of_rat (a * a + b * b + c * c))\<bar>
        \<le> real_of_rat (1 / 2 ^ 51) * sqrt (real_of_rat (a * a + b * b + c * c))" .
    also have "real_of_rat (1 / 2 ^ 51) = 1 / 2 ^ 51" by (simp add: of_rat_divide of_rat_power)
    finally show ?thesis using cr r0 v by auto
  qed
  from o e r n show ?thesis by (simp add: calculate_speed_1_2_3 py_float_sqrt_14)
qed

theorem calculate_speed_unless_overflow_witness:
  "is_double (Finite 1) \<and> is_double (Finite 2) \<and> is_double (Finite 3) \<and>
   normal_component 1 \<and> normal_component 2 \<and> normal_component 3 \<and>
   \<bar>1 :: rat\<bar> < pow2 512 \<and> \<bar>2 :: rat\<bar> < pow2 512 \<and> \<bar>3 :: rat\<bar> < pow2 512 \<and>
   calculate_speed nearest (Finite 1) (Finite 2) (Finite 3) =
     Inr (Finite (8425463406411593 / 2251799813685248)) \<and>
   \<bar>real_of_rat (8425463406411593 / 2251799813685248) - sqrt 14\<bar> \<le> sqrt 14 / 2 ^ 51"
proof -
  have d: "is_double (Finite 1)" "is_double (Finite 2)" "is_double (Finite 3)"
    by (simp_all add: rnd64_def round64_r_1_0 round64_r_2_0 round64_r_3_0)
  have n: "normal_component 1" "normal_component 2" "normal_component 3"
    by (simp_all add: normal_component_def pow2_def)
  have b: "\<bar>1 :: rat\<bar> < pow2 512" "\<bar>2 :: rat\<bar> < pow2 512" "\<bar>3 :: rat\<bar> < pow2 512"
    by (simp_all add: pow2_def)
  note t = calculate_speed_unless_overflow [OF d, of nearest]
  from t n obtain r
    where cr: "calculate_speed nearest (Finite 1) (Finite 2) (Finite 3) = Inr (Finite r)"
      and br: "\<bar>real_of_rat r - sqrt (real_of_rat (1 * 1 + 2 * 2 + 3 * 3))\<bar>
          \<le> sqrt (real_of_rat (1 * 1 + 2 * 2 + 3 * 3)) / 2 ^ 51"
    by blast
  from cr have r: "8425463406411593 / 2251799813685248 = r"
    unfolding calculate_speed_1_2_3 by (simp only: sum.inject pyfloat.inject)
  have s: "real_of_rat (1 * 1 + 2 * 2 + 3 * 3) = 14" by simp
  from br have "\<bar>real_of_rat (8425463406411593 / 2251799813685248) - sqrt 14\<bar>
      \<le> sqrt 14 / 2 ^ 51"
    unfolding r [symmetric] s .
  moreover note calculate_speed_1_2_3 [of nearest]
  ultimately show ?thesis using d n b by (intro conjI)
qed

text \<open>
  The claim as it is written fails for a component whose square is out of range:
  \<^verbatim>\<open>calculate_speed(2.0 ** 512, 0.0, 0.0)\<close> raises.
\<close>

theorem calculate_speed_overflow_counterexample:
  "calculate_speed nearest (Finite (2 ^ 512)) (Finite 0) (Finite 0) = Inl OverflowError"
proof -
  have "pow2 512 \<le> \<bar>2 ^ 512 :: rat\<bar>" by (simp add: pow2_def)
  then have "float_pow2 nearest (Finite (2 ^ 512)) = Inl OverflowError" by (rule float_pow2_big)
  then show ?thesis unfolding calculate_speed_def by simp
qed

lemma math_sqrt_zero_iff:
  assumes "square_range t"
  shows "(\<exists>r. math_sqrt t = Inr r \<and> float_eq r (Finite 0)) \<longleftrightarrow> t = Finite 0"
proof (cases t)
  case (Finite q)
  have q0: "0 \<le> q" using assms Finite by (simp add: square_range_nonneg)
  show ?thesis
  proof (cases "q = 0")
    case True
    then show ?thesis using Finite by (simp add: float_eq_def)
  next
    case False
    then have "0 < q" using q0 by simp
    then have "sqrt64 q \<noteq> 0" using sqrt64_pos [of q] by simp
    then show ?thesis using Finite False \<open>0 < q\<close> by (simp add: float_eq_def)
  qed
qed (use assms in \<open>simp_all add: float_eq_def\<close>)

lemma float_add_zero_iff:
  assumes "square_range a" and "square_range b"
  shows "float_add a b = Finite 0 \<longleftrightarrow> a = Finite 0 \<and> b = Finite 0"
proof (cases a; cases b)
  fix qa qb assume ab: "a = Finite qa" "b = Finite qb"
  have n: "0 \<le> qa" "0 \<le> qb" using assms ab by (simp_all add: square_range_nonneg)
  have e: "float_add a b = round64 False (qa + qb)"
    using ab n by (simp add: float_add_def rnd64_def abs_of_nonneg)
  show ?thesis
  proof (cases "qa = 0 \<and> qb = 0")
    case True
    then show ?thesis using ab e by (simp add: round64_def)
  next
    case False
    then have "pow2 (- 1074) \<le> qa \<or> pow2 (- 1074) \<le> qb" using assms ab by auto
    then have "pow2 (- 1074) \<le> qa + qb" using n by auto
    from round64_not_zero [OF this] show ?thesis using False ab e by auto
  qed
qed (use assms in \<open>simp_all add: float_add_def\<close>)

lemma float_pow2_neg: "float_pow2 lm (float_neg x) = float_pow2 lm x"
  by (cases x) simp_all

lemma float_pow2_zero: "float_eq x (Finite 0) \<Longrightarrow> float_pow2 lm x = Inr (Finite 0)"
  by (cases x) (auto simp: float_eq_def)

lemma float_pow2_not_zero:
  assumes "pow2 (- 537) \<le> \<bar>q\<bar>"
  shows "float_pow2 lm (Finite q) \<noteq> Inr (Finite 0)"
proof -
  have "pow2 (- 537) * pow2 (- 537) \<le> \<bar>q\<bar> * \<bar>q\<bar>"
    using assms by (intro mult_mono) simp_all
  then have "pow2 (- 1074) \<le> \<bar>q\<bar> * \<bar>q\<bar>" by (simp add: pow2_add [symmetric])
  then have r: "libm_pow2 lm \<bar>q\<bar> \<noteq> Finite 0"
    unfolding libm_pow2_def by (intro round64_to_not_zero floor_le_choice)
  have "0 < \<bar>q\<bar>" using pow2_pos [of "- 537"] assms by (rule less_le_trans)
  then have "q \<noteq> 0" by simp
  then show ?thesis using r by (cases "libm_pow2 lm \<bar>q\<bar>") simp_all
qed

lemma calculate_speed_zero_iff:
  "(\<exists>r. calculate_speed lm a b c = Inr r \<and> float_eq r (Finite 0)) \<longleftrightarrow>
     float_pow2 lm a = Inr (Finite 0) \<and> float_pow2 lm b = Inr (Finite 0) \<and>
     float_pow2 lm c = Inr (Finite 0)"
proof -
  consider "float_pow2 lm a = Inl OverflowError \<or> float_pow2 lm b = Inl OverflowError
      \<or> float_pow2 lm c = Inl OverflowError"
    | sa sb sc where "float_pow2 lm a = Inr sa" "float_pow2 lm b = Inr sb"
      "float_pow2 lm c = Inr sc" "square_range sa" "square_range sb" "square_range sc"
    using float_pow2_cases [of lm a] float_pow2_cases [of lm b] float_pow2_cases [of lm c]
    by auto
  then show ?thesis
  proof cases
    case 1
    then show ?thesis
      using float_pow2_cases [of lm a] float_pow2_cases [of lm b]
      by (auto simp: calculate_speed_def)
  next
    case 2
    have s: "square_range (float_add sa sb)" using 2 by (intro float_add_square_range)
    have t: "square_range (float_add (float_add sa sb) sc)"
      using s 2 by (intro float_add_square_range)
    have "calculate_speed lm a b c = math_sqrt (float_add (float_add sa sb) sc)"
      using 2 by (simp add: calculate_speed_def)
    then have "(\<exists>r. calculate_speed lm a b c = Inr r \<and> float_eq r (Finite 0)) \<longleftrightarrow>
        float_add (float_add sa sb) sc = Finite 0"
      using math_sqrt_zero_iff [OF t] by simp
    also have "\<dots> \<longleftrightarrow> float_add sa sb = Finite 0 \<and> sc = Finite 0"
      using s 2 by (intro float_add_zero_iff)
    also have "\<dots> \<longleftrightarrow> (sa = Finite 0 \<and> sb = Finite 0) \<and> sc = Finite 0"
      using float_add_zero_iff [of sa sb] 2 by simp
    finally show ?thesis using 2 by simp
  qed
qed

text \<open>
  C9, as the code has it, for every C library.  Changing the sign of a component changes
  nothing, neither the value nor an exception.  The result equals zero exactly when all
  three squares are zero; that is so when the three components are zero, and it is not so
  when a component has a magnitude of \<open>2 ^ -537\<close> or more.
\<close>

theorem calculate_speed_signs_and_zero:
  "calculate_speed lm (float_neg a) b c = calculate_speed lm a b c \<and>
   calculate_speed lm a (float_neg b) c = calculate_speed lm a b c \<and>
   calculate_speed lm a b (float_neg c) = calculate_speed lm a b c \<and>
   ((\<exists>r. calculate_speed lm a b c = Inr r \<and> float_eq r (Finite 0)) \<longleftrightarrow>
      float_pow2 lm a = Inr (Finite 0) \<and> float_pow2 lm b = Inr (Finite 0) \<and>
      float_pow2 lm c = Inr (Finite 0)) \<and>
   (float_eq a (Finite 0) \<and> float_eq b (Finite 0) \<and> float_eq c (Finite 0) \<longrightarrow>
      calculate_speed lm a b c = Inr (Finite 0)) \<and>
   (\<forall>q. pow2 (- 537) \<le> \<bar>q\<bar> \<and> (a = Finite q \<or> b = Finite q \<or> c = Finite q) \<longrightarrow>
      \<not> (\<exists>r. calculate_speed lm a b c = Inr r \<and> float_eq r (Finite 0)))"
proof -
  have signs: "calculate_speed lm (float_neg a) b c = calculate_speed lm a b c"
    "calculate_speed lm a (float_neg b) c = calculate_speed lm a b c"
    "calculate_speed lm a b (float_neg c) = calculate_speed lm a b c"
    by (simp_all add: calculate_speed_def float_pow2_neg)
  have zeros: "calculate_speed lm a b c = Inr (Finite 0)"
    if "float_eq a (Finite 0)" "float_eq b (Finite 0)" "float_eq c (Finite 0)"
    using that by (simp add: calculate_speed_def float_pow2_zero float_add_def rnd64_def
        round64_def)
  have large: "\<not> (\<exists>r. calculate_speed lm a b c = Inr r \<and> float_eq r (Finite 0))"
    if "pow2 (- 537) \<le> \<bar>q\<bar>" "a = Finite q \<or> b = Finite q \<or> c = Finite q" for q
    using that float_pow2_not_zero [of q lm] unfolding calculate_speed_zero_iff by auto
  show ?thesis using signs zeros large calculate_speed_zero_iff [of lm a b c] by blast
qed

theorem calculate_speed_signs_and_zero_witness:
  "float_eq (Finite 0) (Finite 0) \<and> float_eq NegZero (Finite 0) \<and>
   calculate_speed nearest (Finite 0) NegZero (Finite 0) = Inr (Finite 0) \<and>
   pow2 (- 537) \<le> \<bar>3\<bar> \<and>
   calculate_speed nearest (Finite 1) (Finite (- 2)) (Finite 3) =
     Inr (Finite (8425463406411593 / 2251799813685248)) \<and>
   \<not> float_eq (Finite (8425463406411593 / 2251799813685248)) (Finite 0)"
proof -
  have z: "float_eq (Finite 0) (Finite 0)" "float_eq NegZero (Finite 0)"
    by (simp_all add: float_eq_def)
  have l: "pow2 (- 537) \<le> \<bar>3\<bar>" by (simp add: pow2_def)
  note t1 = calculate_speed_signs_and_zero [of nearest "Finite 0" NegZero "Finite 0"]
  note t2 = calculate_speed_signs_and_zero [of nearest "Finite 1" "Finite 2" "Finite 3"]
  have a: "calculate_speed nearest (Finite 0) NegZero (Finite 0) = Inr (Finite 0)"
    using t1 z by blast
  have "calculate_speed nearest (Finite 1) (float_neg (Finite 2)) (Finite 3) =
      calculate_speed nearest (Finite 1) (Finite 2) (Finite 3)"
    using t2 by blast
  then have b: "calculate_speed nearest (Finite 1) (Finite (- 2)) (Finite 3) =
     Inr (Finite (8425463406411593 / 2251799813685248))"
    by (simp add: calculate_speed_1_2_3)
  have "\<not> (\<exists>r. calculate_speed nearest (Finite 1) (Finite 2) (Finite 3) = Inr r \<and>
      float_eq r (Finite 0))"
    using t2 l by blast
  then have c: "\<not> float_eq (Finite (8425463406411593 / 2251799813685248)) (Finite 0)"
    by (simp add: calculate_speed_1_2_3)
  from z a l b c show ?thesis by simp
qed

lemma floor_one_div: "\<lfloor>1 / numeral b :: rat\<rfloor> = 1 div numeral b"
  using floor_divide_of_int_eq [of 1 "numeral b", where ?'a = rat] by simp

lemma round64_underflow: "round64 False (1 / 2 ^ 600 * (1 / 2 ^ 600)) = Finite 0"
  by (subst round64_eval [of "- 1200"])
    (simp_all add: pow2_def round_half_even_def Let_def floor_one_div)

lemma float_pow2_underflow: "float_pow2 nearest (Finite (1 / 2 ^ 600)) = Inr (Finite 0)"
proof -
  have nz: "(1 / 2 ^ 600 :: rat) \<noteq> 0" by simp
  have a: "\<bar>1 / 2 ^ 600 :: rat\<bar> = 1 / 2 ^ 600" by simp
  have n1: "(1 / 2 ^ 600 :: rat) \<noteq> 1" by simp
  have p: "libm_pow2 nearest (1 / 2 ^ 600) = Finite 0"
    by (simp only: libm_pow2_nearest [OF nz] round64_underflow)
  show ?thesis by (simp only: float_pow2.simps a nz n1 if_False p pyfloat.case)
qed

text \<open>
  The claim as it is written fails for a small component: the square of \<open>2 ^ -600\<close>
  underflows to zero, and the speed of \<open>(2 ^ -600, 0, 0)\<close> is \<open>0.0\<close>.
\<close>

theorem calculate_speed_underflow_counterexample:
  "calculate_speed nearest (Finite (1 / 2 ^ 600)) (Finite 0) (Finite 0) = Inr (Finite 0) \<and>
   \<not> float_eq (Finite (1 / 2 ^ 600)) (Finite 0)"
proof -
  have "calculate_speed nearest (Finite (1 / 2 ^ 600)) (Finite 0) (Finite 0) = Inr (Finite 0)"
    unfolding calculate_speed_def float_pow2_underflow
    by (simp add: float_add_def rnd64_def round64_def)
  moreover have "\<not> float_eq (Finite (1 / 2 ^ 600)) (Finite 0)"
    by (simp add: float_eq_def)
  ultimately show ?thesis by simp
qed

subsection \<open>Two libraries on one square\<close>

lemma py_float_4_536: "py_float ''4.536'' = Inr (Finite (2553540988719071 / 562949953421312))"
proof -
  have "round64 False (4536 / 1000) = Finite (2553540988719071 / 562949953421312)"
    by (subst round64_eval [of 2])
      (simp_all add: pow2_def round_half_even_def Let_def floor_numeral_div)
  then show ?thesis by (simp add: float_grammar_defs Let_def)
qed

lemma py_float_lower:
  "py_float ''20.575295999999994'' = Inr (Finite (1447857740603713 / 70368744177664))"
proof -
  have "round64 False (20575295999999994 / 1000000000000000)
      = Finite (1447857740603713 / 70368744177664)"
    by (subst round64_eval [of 4])
      (simp_all add: pow2_def round_half_even_def Let_def floor_numeral_div)
  then show ?thesis by (simp add: float_grammar_defs Let_def)
qed

lemma py_float_upper:
  "py_float ''20.575295999999998'' = Inr (Finite (5791430962414853 / 281474976710656))"
proof -
  have "round64 False (20575295999999998 / 1000000000000000)
      = Finite (5791430962414853 / 281474976710656)"
    by (subst round64_eval [of 4])
      (simp_all add: pow2_def round_half_even_def Let_def floor_numeral_div)
  then show ?thesis by (simp add: float_grammar_defs Let_def)
qed

lemma square_4_536:
  "(2553540988719071 / 562949953421312 :: rat) * (2553540988719071 / 562949953421312) =
     6520571581068370688081359103041 / 316912650057057350374175801344"
  by simp

lemma libm_pow2_downwards_4_536:
  "libm_pow2 downwards (2553540988719071 / 562949953421312) =
     Finite (1447857740603713 / 70368744177664)"
  unfolding libm_pow2_def downwards_def if_False square_4_536
  by (subst round64_to_eval [of 4]) (simp_all add: pow2_def Let_def floor_numeral_div)

lemma libm_pow2_nearest_4_536:
  "libm_pow2 nearest (2553540988719071 / 562949953421312) =
     Finite (5791430962414853 / 281474976710656)"
proof -
  have "(2553540988719071 / 562949953421312 :: rat) \<noteq> 0" by simp
  from libm_pow2_nearest [OF this] show ?thesis
    unfolding square_4_536
    by (subst (asm) round64_eval [of 4])
      (simp_all add: pow2_def round_half_even_def Let_def floor_numeral_div)
qed

text \<open>
  X4.  The square of \<^verbatim>\<open>4.536\<close> lies between two neighbouring floats.  The library that
  rounds down returns \<^verbatim>\<open>20.575295999999994\<close>, the one that rounds to the nearest
  returns \<^verbatim>\<open>20.575295999999998\<close>: the model has a library for either result of
  \<^verbatim>\<open>4.536 ** 2\<close>.
\<close>

theorem float_pow2_library_choice:
  "ebind (py_float ''4.536'') (float_pow2 downwards) = py_float ''20.575295999999994'' \<and>
   ebind (py_float ''4.536'') (float_pow2 nearest) = py_float ''20.575295999999998''"
  by (simp add: py_float_4_536 py_float_lower py_float_upper libm_pow2_downwards_4_536
      libm_pow2_nearest_4_536)

end
